theory Spec2Isabelle
  imports Main "HOL-Library.Word"
begin

unbundle bit_operations_syntax

section \<open>Data model\<close>

text \<open>
  The source keeps all numbers in 32-bit machine integers: \<^verbatim>\<open>int\<close> for addresses and
  values, \<^verbatim>\<open>unsigned int\<close> for \<^verbatim>\<open>rv\<close> and \<^verbatim>\<open>global_clock\<close>. They are \<open>32 word\<close>
  here; \<open>sint\<close> reads a word as the signed \<^verbatim>\<open>int\<close> of the source.

  \<^verbatim>\<open>typedef struct { int addr; int value; } Acct;\<close>
  (the field \<^verbatim>\<open>value\<close> is called \<open>val\<close>, since \<open>value\<close> is a keyword).
\<close>

record Acct =
  addr :: "32 word"
  val :: "32 word"

text \<open>
  The memory that all threads share: \<^verbatim>\<open>vector<Acct> accts\<close> and
  \<^verbatim>\<open>volatile unsigned int global_clock\<close>.
\<close>

record shared =
  accts :: "Acct list"
  global_clock :: "32 word"

text \<open>
  The thread-local variables: \<^verbatim>\<open>list<Acct> read_set\<close>,
  \<^verbatim>\<open>unordered_map<int,int> write_set\<close> and \<^verbatim>\<open>unsigned int rv\<close>. The write set is an
  association list with pairwise distinct keys; the order in which the source iterates over
  an \<^verbatim>\<open>unordered_map\<close> is unspecified, the model uses the order of insertion.
\<close>

record tx =
  read_set :: "Acct list"
  write_set :: "(32 word \<times> 32 word) list"
  rv :: "32 word"

text \<open>The initial values of the thread-local variables (\<^verbatim>\<open>rv = 0\<close>, empty containers).\<close>

definition tx_init :: tx where
  "tx_init = \<lparr>read_set = [], write_set = [], rv = 0\<rparr>"

text \<open>
  Every access of a thread to the shared memory is one event. The trace of a run lists the
  accesses in the order in which they were made.
\<close>

datatype event =
    LoadClock "32 word"
  | LoadValue "32 word" "32 word"
  | CasClock "32 word" "32 word" bool
  | StoreValue "32 word" "32 word"
  | StoreClock "32 word"

text \<open>
  The world a thread runs in: the shared memory, what the other threads are going to do to
  it (\<open>others\<close>: before each access of this thread to the shared memory the next pending
  step of the other threads, if there is one, is applied), and the trace of the accesses
  made so far. With \<open>others = []\<close> the thread runs alone.
\<close>

record world =
  mem :: shared
  others :: "(shared \<Rightarrow> shared) list"
  trace :: "event list"

text \<open>
  How a call ends: it returns, it throws (\<^verbatim>\<open>throw "Transaction ABORTED"\<close> throws a string),
  or it indexes \<^verbatim>\<open>accts\<close> out of range or overflows a signed addition, which C++ leaves
  undefined. The loops of the source need not end, so every function with such a loop takes
  fuel, the number of loop iterations it may still make; a call whose fuel is used up is
  still \<open>Running\<close>, and the world and the thread-local state it is returned with are those
  reached so far.
\<close>

datatype 'a outcome = Returns 'a | Throws string | Undefined | Running

section \<open>Accesses to the shared memory\<close>

definition interfere :: "world \<Rightarrow> world" where
  "interfere w =
     (case others w of
        [] \<Rightarrow> w
      | f # fs \<Rightarrow> w\<lparr>mem := f (mem w), others := fs\<rparr>)"

definition observe :: "event \<Rightarrow> world \<Rightarrow> world" where
  "observe e w = w\<lparr>trace := trace w @ [e]\<rparr>"

text \<open>\<^verbatim>\<open>accts[a]\<close> is defined for \<^verbatim>\<open>0 <= a < accts.size()\<close> only.\<close>

definition in_range :: "32 word \<Rightarrow> Acct list \<Rightarrow> bool" where
  "in_range a cells = (0 \<le> sint a \<and> nat (sint a) < length cells)"

definition load_clock :: "world \<Rightarrow> 32 word \<times> world" where
  "load_clock w =
     (let w1 = interfere w; c = global_clock (mem w1)
      in (c, observe (LoadClock c) w1))"

definition load_value :: "32 word \<Rightarrow> world \<Rightarrow> (32 word \<times> world) option" where
  "load_value a w =
     (let w1 = interfere w
      in if in_range a (accts (mem w1))
         then (let v = val (accts (mem w1) ! nat (sint a))
               in Some (v, observe (LoadValue a v) w1))
         else None)"

definition set_value :: "32 word \<Rightarrow> 32 word \<Rightarrow> shared \<Rightarrow> shared" where
  "set_value a v s =
     s\<lparr>accts := (accts s)[nat (sint a) := (accts s ! nat (sint a))\<lparr>val := v\<rparr>]\<rparr>"

definition store_value :: "32 word \<Rightarrow> 32 word \<Rightarrow> world \<Rightarrow> world option" where
  "store_value a v w =
     (let w1 = interfere w
      in if in_range a (accts (mem w1))
         then Some (observe (StoreValue a v) (w1\<lparr>mem := set_value a v (mem w1)\<rparr>))
         else None)"

definition store_clock :: "32 word \<Rightarrow> world \<Rightarrow> world" where
  "store_clock c w =
     (let w1 = interfere w
      in observe (StoreClock c) (w1\<lparr>mem := (mem w1)\<lparr>global_clock := c\<rparr>\<rparr>))"

text \<open>\<^verbatim>\<open>__sync_bool_compare_and_swap(&global_clock, e, n)\<close>\<close>

definition cas_clock :: "32 word \<Rightarrow> 32 word \<Rightarrow> world \<Rightarrow> bool \<times> world" where
  "cas_clock e n w =
     (let w1 = interfere w
      in if global_clock (mem w1) = e
         then (True, observe (CasClock e n True) (w1\<lparr>mem := (mem w1)\<lparr>global_clock := n\<rparr>\<rparr>))
         else (False, observe (CasClock e n False) w1))"

section \<open>The transactional operations\<close>

text \<open>\<^verbatim>\<open>void tx_abort() { throw "Transaction ABORTED"; }\<close>\<close>

definition tx_abort :: "'a outcome" where
  "tx_abort = Throws ''Transaction ABORTED''"

text \<open>
  The \<^verbatim>\<open>for\<close> loop of \<^verbatim>\<open>tx_validate\<close> over the read set. It leaves the function with
  \<^verbatim>\<open>return temp\<close> (\<open>Returns (Some temp)\<close>), throws, or runs off the end of the read set
  (\<open>Returns None\<close>), after which the enclosing \<^verbatim>\<open>while(1)\<close> goes round again.
\<close>

fun validate_scan :: "32 word \<Rightarrow> Acct list \<Rightarrow> world \<Rightarrow> 32 word option outcome \<times> world" where
  "validate_scan temp [] w = (Returns None, w)"
| "validate_scan temp (e # es) w =
     (case load_value (addr e) w of
        None \<Rightarrow> (Undefined, w)
      | Some (v, w1) \<Rightarrow>
          if val e \<noteq> v then (tx_abort, w1)
          else (case load_clock w1 of
                  (c, w2) \<Rightarrow>
                    if temp = c then (Returns (Some temp), w2)
                    else validate_scan temp es w2))"

fun tx_validate :: "nat \<Rightarrow> world \<Rightarrow> tx \<Rightarrow> 32 word outcome \<times> world" where
  "tx_validate 0 w t = (Running, w)"
| "tx_validate (Suc n) w t =
     (case load_clock w of
        (temp, w1) \<Rightarrow>
          if temp AND 1 \<noteq> 0 then tx_validate n w1 t
          else (case validate_scan temp (read_set t) w1 of
                  (Returns (Some r), w2) \<Rightarrow> (Returns r, w2)
                | (Returns None, w2) \<Rightarrow> tx_validate n w2 t
                | (Throws m, w2) \<Rightarrow> (Throws m, w2)
                | (Undefined, w2) \<Rightarrow> (Undefined, w2)
                | (Running, w2) \<Rightarrow> (Running, w2)))"

text \<open>The \<^verbatim>\<open>do { rv = global_clock; } while((rv & 1) != 0);\<close> of \<^verbatim>\<open>tx_begin\<close>.\<close>

fun begin_spin :: "nat \<Rightarrow> world \<Rightarrow> tx \<Rightarrow> unit outcome \<times> world \<times> tx" where
  "begin_spin 0 w t = (Running, w, t)"
| "begin_spin (Suc n) w t =
     (case load_clock w of
        (c, w1) \<Rightarrow>
          if c AND 1 \<noteq> 0 then begin_spin n w1 (t\<lparr>rv := c\<rparr>)
          else (Returns (), w1, t\<lparr>rv := c\<rparr>))"

definition tx_begin :: "nat \<Rightarrow> world \<Rightarrow> tx \<Rightarrow> unit outcome \<times> world \<times> tx" where
  "tx_begin n w t = begin_spin n w (t\<lparr>read_set := [], write_set := []\<rparr>)"

text \<open>
  \<^verbatim>\<open>write_set.emplace(addr, val)\<close>: \<^verbatim>\<open>unordered_map::emplace\<close> inserts the pair if the map
  has no element with that key, and leaves the map as it is otherwise.
\<close>

definition emplace :: "32 word \<Rightarrow> 32 word \<Rightarrow> (32 word \<times> 32 word) list \<Rightarrow> (32 word \<times> 32 word) list" where
  "emplace k v m = (case map_of m k of None \<Rightarrow> m @ [(k, v)] | Some _ \<Rightarrow> m)"

text \<open>
  \<^verbatim>\<open>tx_write\<close> touches the write set only. (The source declares it \<^verbatim>\<open>bool\<close> and returns
  nothing; no caller reads a result.)
\<close>

definition tx_write :: "32 word \<Rightarrow> 32 word \<Rightarrow> tx \<Rightarrow> tx" where
  "tx_write a v t = t\<lparr>write_set := emplace a v (write_set t)\<rparr>"

text \<open>
  The \<^verbatim>\<open>while(rv != global_clock)\<close> loop of \<^verbatim>\<open>tx_read\<close> and what follows it; \<open>v\<close> is the
  local variable \<^verbatim>\<open>val\<close>.
\<close>

fun read_loop :: "nat \<Rightarrow> 32 word \<Rightarrow> 32 word \<Rightarrow> world \<Rightarrow> tx \<Rightarrow> 32 word outcome \<times> world \<times> tx" where
  "read_loop 0 a v w t = (Running, w, t)"
| "read_loop (Suc n) a v w t =
     (case load_clock w of
        (c, w1) \<Rightarrow>
          if rv t \<noteq> c
          then (case tx_validate n w1 t of
                  (Returns r, w2) \<Rightarrow>
                    (case load_value a w2 of
                       None \<Rightarrow> (Undefined, w2, t\<lparr>rv := r\<rparr>)
                     | Some (v', w3) \<Rightarrow> read_loop n a v' w3 (t\<lparr>rv := r\<rparr>))
                | (Throws m, w2) \<Rightarrow> (Throws m, w2, t)
                | (Undefined, w2) \<Rightarrow> (Undefined, w2, t)
                | (Running, w2) \<Rightarrow> (Running, w2, t))
          else (Returns v, w1, t\<lparr>read_set := read_set t @ [\<lparr>addr = a, val = v\<rparr>]\<rparr>))"

text \<open>
  \<^verbatim>\<open>tx_read\<close>: the loop over the write set returns the value of the element whose key is
  \<^verbatim>\<open>addr\<close> (\<open>map_of\<close>); without one, the cell is read and the loop above runs.
\<close>

definition tx_read :: "nat \<Rightarrow> 32 word \<Rightarrow> world \<Rightarrow> tx \<Rightarrow> 32 word outcome \<times> world \<times> tx" where
  "tx_read n a w t =
     (case map_of (write_set t) a of
        Some x \<Rightarrow> (Returns x, w, t)
      | None \<Rightarrow>
          (case load_value a w of
             None \<Rightarrow> (Undefined, w, t)
           | Some (v, w1) \<Rightarrow> read_loop n a v w1 t))"

text \<open>
  \<^verbatim>\<open>while(!__sync_bool_compare_and_swap(&global_clock, rv, rv + 1)) rv = tx_validate();\<close>
\<close>

fun commit_cas :: "nat \<Rightarrow> world \<Rightarrow> tx \<Rightarrow> unit outcome \<times> world \<times> tx" where
  "commit_cas 0 w t = (Running, w, t)"
| "commit_cas (Suc n) w t =
     (case cas_clock (rv t) (rv t + 1) w of
        (True, w1) \<Rightarrow> (Returns (), w1, t)
      | (False, w1) \<Rightarrow>
          (case tx_validate n w1 t of
             (Returns r, w2) \<Rightarrow> commit_cas n w2 (t\<lparr>rv := r\<rparr>)
           | (Throws m, w2) \<Rightarrow> (Throws m, w2, t)
           | (Undefined, w2) \<Rightarrow> (Undefined, w2, t)
           | (Running, w2) \<Rightarrow> (Running, w2, t)))"

text \<open>\<^verbatim>\<open>for (auto& x: write_set) accts[x.first].value = x.second;\<close>\<close>

fun write_back :: "(32 word \<times> 32 word) list \<Rightarrow> world \<Rightarrow> world option" where
  "write_back [] w = Some w"
| "write_back ((a, v) # xs) w =
     (case store_value a v w of
        None \<Rightarrow> None
      | Some w1 \<Rightarrow> write_back xs w1)"

definition tx_commit :: "nat \<Rightarrow> world \<Rightarrow> tx \<Rightarrow> unit outcome \<times> world \<times> tx" where
  "tx_commit n w t =
     (if write_set t = [] then (Returns (), w, t)
      else (case commit_cas n w t of
              (Returns u, w1, t1) \<Rightarrow>
                (case write_back (write_set t1) w1 of
                   None \<Rightarrow> (Undefined, w1, t1)
                 | Some w2 \<Rightarrow> (Returns (), store_clock (rv t1 + 2) w2, t1))
            | (Throws m, w1, t1) \<Rightarrow> (Throws m, w1, t1)
            | (Undefined, w1, t1) \<Rightarrow> (Undefined, w1, t1)
            | (Running, w1, t1) \<Rightarrow> (Running, w1, t1)))"

section \<open>The bank transfer of the worker threads\<close>

text \<open>
  One attempt of the transaction of \<^verbatim>\<open>th_run\<close>. The accounts \<^verbatim>\<open>r1\<close> and \<^verbatim>\<open>r2\<close> are drawn
  by \<^verbatim>\<open>rand_r_32\<close> (which is not part of the sources) in the first round of the loop, until
  they differ, and stay as they are in the later rounds; here they are parameters.
  \<open>transfers j\<close> is the \<^verbatim>\<open>for\<close> loop with \<open>j\<close> rounds to go. \<^verbatim>\<open>a1 - TRFR_AMT\<close> cannot
  overflow behind the test \<^verbatim>\<open>a1 < TRFR_AMT\<close>; \<^verbatim>\<open>a2 + TRFR_AMT\<close> can.
\<close>

definition TRFR_AMT :: "32 word" where
  "TRFR_AMT = 50"

fun transfers :: "nat \<Rightarrow> nat \<Rightarrow> 32 word \<Rightarrow> 32 word \<Rightarrow> world \<Rightarrow> tx \<Rightarrow> unit outcome \<times> world \<times> tx" where
  "transfers 0 n r1 r2 w t = (Returns (), w, t)"
| "transfers (Suc j) n r1 r2 w t =
     (case tx_read n r1 w t of
        (Returns a1, w1, t1) \<Rightarrow>
          if a1 <s TRFR_AMT then (Returns (), w1, t1)
          else (case tx_read n r2 w1 t1 of
                  (Returns a2, w2, t2) \<Rightarrow>
                    if 2147483647 < sint a2 + sint TRFR_AMT then (Undefined, w2, t2)
                    else transfers j n r1 r2 w2
                           (tx_write r2 (a2 + TRFR_AMT) (tx_write r1 (a1 - TRFR_AMT) t2))
                | (Throws m, w2, t2) \<Rightarrow> (Throws m, w2, t2)
                | (Undefined, w2, t2) \<Rightarrow> (Undefined, w2, t2)
                | (Running, w2, t2) \<Rightarrow> (Running, w2, t2))
      | (Throws m, w1, t1) \<Rightarrow> (Throws m, w1, t1)
      | (Undefined, w1, t1) \<Rightarrow> (Undefined, w1, t1)
      | (Running, w1, t1) \<Rightarrow> (Running, w1, t1))"

text \<open>Lines 155 to 170: \<^verbatim>\<open>tx_begin()\<close> and the ten rounds, up to the call of \<^verbatim>\<open>tx_commit\<close>.\<close>

definition th_run_body :: "nat \<Rightarrow> 32 word \<Rightarrow> 32 word \<Rightarrow> world \<Rightarrow> tx \<Rightarrow> unit outcome \<times> world \<times> tx" where
  "th_run_body n r1 r2 w t =
     (case tx_begin n w t of
        (Returns u, w1, t1) \<Rightarrow> transfers 10 n r1 r2 w1 t1
      | (Throws m, w1, t1) \<Rightarrow> (Throws m, w1, t1)
      | (Undefined, w1, t1) \<Rightarrow> (Undefined, w1, t1)
      | (Running, w1, t1) \<Rightarrow> (Running, w1, t1))"

text \<open>
  Lines 153 to 175: the \<^verbatim>\<open>try\<close> block with its \<^verbatim>\<open>catch\<close>; the result is the flag
  \<^verbatim>\<open>aborted\<close>.
\<close>

definition th_run_attempt :: "nat \<Rightarrow> 32 word \<Rightarrow> 32 word \<Rightarrow> world \<Rightarrow> tx \<Rightarrow> bool outcome \<times> world \<times> tx" where
  "th_run_attempt n r1 r2 w t =
     (case th_run_body n r1 r2 w t of
        (Returns u, w1, t1) \<Rightarrow>
          (case tx_commit n w1 t1 of
             (Returns u', w2, t2) \<Rightarrow> (Returns False, w2, t2)
           | (Throws m, w2, t2) \<Rightarrow> (Returns True, w2, t2)
           | (Undefined, w2, t2) \<Rightarrow> (Undefined, w2, t2)
           | (Running, w2, t2) \<Rightarrow> (Running, w2, t2))
      | (Throws m, w1, t1) \<Rightarrow> (Returns True, w1, t1)
      | (Undefined, w1, t1) \<Rightarrow> (Undefined, w1, t1)
      | (Running, w1, t1) \<Rightarrow> (Running, w1, t1))"

text \<open>
  The sums \<^verbatim>\<open>totalMoneyBefore\<close> and \<^verbatim>\<open>totalMoneyAfter\<close> of \<^verbatim>\<open>main\<close>, taken in a
  \<^verbatim>\<open>long\<close> over the signed values.
\<close>

definition totalMoney :: "Acct list \<Rightarrow> int" where
  "totalMoney cells = sum_list (map (\<lambda>c. sint (val c)) cells)"

text \<open>
  The start of \<^verbatim>\<open>main\<close>: \<^verbatim>\<open>NUM_ACCTS\<close> accounts with \<^verbatim>\<open>INIT_BALANCE\<close> each, the
  clock at 0, no access made yet, no other thread at work. The number of accounts is a
  parameter of \<open>main_init\<close>, so that small banks can be run as well.
\<close>

definition NUM_ACCTS :: nat where
  "NUM_ACCTS = 1000000"

definition INIT_BALANCE :: "32 word" where
  "INIT_BALANCE = 1000"

definition init_accts :: "nat \<Rightarrow> Acct list" where
  "init_accts k = map (\<lambda>i. \<lparr>addr = of_nat i, val = INIT_BALANCE\<rparr>) [0..<k]"

definition main_init :: "nat \<Rightarrow> world" where
  "main_init k = \<lparr>mem = \<lparr>accts = init_accts k, global_clock = 0\<rparr>, others = [], trace = []\<rparr>"

section \<open>Properties of traces\<close>

text \<open>The accesses that leave the shared memory as it is.\<close>

fun is_load :: "event \<Rightarrow> bool" where
  "is_load (LoadClock c) = True"
| "is_load (LoadValue a v) = True"
| "is_load (CasClock e n s) = False"
| "is_load (StoreValue a v) = False"
| "is_load (StoreClock c) = False"

text \<open>
  From \<open>w\<close> to \<open>w'\<close> the thread has only loaded: the trace has grown by loads, and if the
  thread runs alone the memory is what it was.
\<close>

definition reads_only :: "world \<Rightarrow> world \<Rightarrow> bool" where
  "reads_only w w' =
     ((\<exists>evs. trace w' = trace w @ evs \<and> list_all is_load evs) \<and>
      (others w = [] \<longrightarrow> mem w' = mem w \<and> others w' = []))"

text \<open>
  What \<^verbatim>\<open>tx_commit\<close> does until it owns the clock: loads, and attempts to move the clock
  from some value to the next one that fail.
\<close>

fun waiting :: "event \<Rightarrow> bool" where
  "waiting (LoadClock c) = True"
| "waiting (LoadValue a v) = True"
| "waiting (CasClock e n s) = (\<not> s \<and> n = e + 1)"
| "waiting (StoreValue a v) = False"
| "waiting (StoreClock c) = False"

definition waits :: "world \<Rightarrow> world \<Rightarrow> bool" where
  "waits w w' =
     ((\<exists>evs. trace w' = trace w @ evs \<and> list_all waiting evs) \<and>
      (others w = [] \<longrightarrow> mem w' = mem w \<and> others w' = []))"

text \<open>The stores to cells in a trace, in order.\<close>

fun stores :: "event list \<Rightarrow> (32 word \<times> 32 word) list" where
  "stores [] = []"
| "stores (StoreValue a v # evs) = (a, v) # stores evs"
| "stores (e # evs) = stores evs"

text \<open>A compare-and-swap that tries to move the clock from an even value to the next, odd one.\<close>

fun even_to_odd :: "event \<Rightarrow> bool" where
  "even_to_odd (CasClock e n s) = (e AND 1 = 0 \<and> n = e + 1 \<and> n AND 1 = 1)"
| "even_to_odd (LoadClock c) = True"
| "even_to_odd (LoadValue a v) = True"
| "even_to_odd (StoreValue a v) = True"
| "even_to_odd (StoreClock c) = True"

text \<open>
  The last access in the trace is the load of the cell of an entry of the read set \<open>rs\<close>, and
  the value loaded is not the value the entry records.
\<close>

definition mismatch_last :: "Acct list \<Rightarrow> event list \<Rightarrow> bool" where
  "mismatch_last rs evs =
     (case rev evs of
        LoadValue a v # _ \<Rightarrow> \<exists>e \<in> set rs. addr e = a \<and> val e \<noteq> v
      | _ \<Rightarrow> False)"

text \<open>
  From \<open>w\<close> to \<open>w'\<close> the thread has stored to no cell: the trace holds the stores it
  held, and if the thread runs alone the cells are what they were.
\<close>

definition writes_nothing :: "world \<Rightarrow> world \<Rightarrow> bool" where
  "writes_nothing w w' =
     (stores (trace w') = stores (trace w) \<and> (others w = [] \<longrightarrow> accts (mem w') = accts (mem w)))"

section \<open>The states of a thread between two calls\<close>

text \<open>
  The thread-local states in which a thread can be when it is not inside one of the five
  operations: the initial one, and the ones in which a call has returned or thrown, in any
  world and whatever the other threads do. (After undefined behaviour there is no state
  to speak of, and a call that is still running has not left the operation.)
\<close>

inductive between_calls :: "tx \<Rightarrow> bool" where
  start: "between_calls tx_init"
| begun: "between_calls t \<Longrightarrow> tx_begin n w t = (Returns u, w', t') \<Longrightarrow> between_calls t'"
| written: "between_calls t \<Longrightarrow> between_calls (tx_write a v t)"
| read: "between_calls t \<Longrightarrow> tx_read n a w t = (Returns x, w', t') \<Longrightarrow> between_calls t'"
| read_aborted: "between_calls t \<Longrightarrow> tx_read n a w t = (Throws m, w', t') \<Longrightarrow> between_calls t'"
| committed: "between_calls t \<Longrightarrow> tx_commit n w t = (Returns u, w', t') \<Longrightarrow> between_calls t'"
| commit_aborted: "between_calls t \<Longrightarrow> tx_commit n w t = (Throws m, w', t') \<Longrightarrow> between_calls t'"

section \<open>The rounds of the commit loop\<close>

text \<open>
  The loop \<^verbatim>\<open>while(!__sync_bool_compare_and_swap(&global_clock, rv, rv + 1)) rv = tx_validate();\<close>
  of \<^verbatim>\<open>tx_commit\<close> has gone through some rounds, from the world \<open>w\<close> and the thread-local
  state \<open>t\<close> to \<open>w'\<close> and \<open>t'\<close>: in each round the compare-and-swap from \<^verbatim>\<open>rv\<close> to
  \<^verbatim>\<open>rv + 1\<close> has failed, the call of \<^verbatim>\<open>tx_validate\<close> that follows has returned, and the
  value it returned has been assigned to \<^verbatim>\<open>rv\<close>.
\<close>

inductive revalidated :: "world \<Rightarrow> tx \<Rightarrow> world \<Rightarrow> tx \<Rightarrow> bool" where
  first: "revalidated w t w t"
| again: "cas_clock (rv t) (rv t + 1) w = (False, w1) \<Longrightarrow>
          tx_validate n w1 t = (Returns r, w2) \<Longrightarrow>
          revalidated w2 (t\<lparr>rv := r\<rparr>) w' t' \<Longrightarrow> revalidated w t w' t'"

section \<open>Running the model on concrete states\<close>

text \<open>
  The definitions to unfold when a run is computed. The ten rounds of \<^verbatim>\<open>th_run\<close> are
  counted down in unary, like the fuel.
\<close>

lemmas run_defs =
  tx_begin_def tx_read_def tx_write_def tx_commit_def tx_init_def tx_abort_def emplace_def
  load_clock_def load_value_def store_value_def store_clock_def cas_clock_def set_value_def
  interfere_def observe_def in_range_def th_run_attempt_def th_run_body_def TRFR_AMT_def
  word_sless_alt

lemma ten_rounds:
  "transfers 10 = transfers (Suc (Suc (Suc (Suc (Suc (Suc (Suc (Suc (Suc (Suc 0))))))))))"
  by (simp add: eval_nat_numeral)

lemma main_init_2:
  "main_init 2 =
     \<lparr>mem = \<lparr>accts = [\<lparr>addr = 0, val = 1000\<rparr>, \<lparr>addr = 1, val = 1000\<rparr>], global_clock = 0\<rparr>,
      others = [], trace = []\<rparr>"
  by (simp add: main_init_def init_accts_def INIT_BALANCE_def upt_rec)

lemma main_init_3:
  "main_init 3 =
     \<lparr>mem = \<lparr>accts = [\<lparr>addr = 0, val = 1000\<rparr>, \<lparr>addr = 1, val = 1000\<rparr>, \<lparr>addr = 2, val = 1000\<rparr>],
             global_clock = 0\<rparr>,
      others = [], trace = []\<rparr>"
  by (simp add: main_init_def init_accts_def INIT_BALANCE_def upt_rec)

lemma length_init_accts: "length (init_accts k) = k"
  by (simp add: init_accts_def)

lemma nth_init_accts: "i < k \<Longrightarrow> init_accts k ! i = \<lparr>addr = of_nat i, val = 1000\<rparr>"
  by (simp add: init_accts_def INIT_BALANCE_def)

lemma totalMoney_init_accts: "totalMoney (init_accts k) = 1000 * int k"
  by (induction k) (simp_all add: init_accts_def totalMoney_def INIT_BALANCE_def)

lemma totalMoney_update:
  "i < length cs \<Longrightarrow>
   totalMoney (cs[i := c]) = totalMoney cs - sint (val (cs ! i)) + sint (val c)"
proof (induction cs arbitrary: i)
  case Nil
  then show ?case by simp
next
  case (Cons x cs)
  then show ?case by (cases i) (simp_all add: totalMoney_def)
qed

lemma take_3: "3 \<le> length xs \<Longrightarrow> take 3 xs = [xs ! 0, xs ! Suc 0, xs ! 2]"
proof -
  assume "3 \<le> length xs"
  then obtain a b c r where "xs = a # b # c # r"
    by (cases xs; cases "tl xs"; cases "tl (tl xs)") auto
  then show ?thesis by (simp add: numeral_3_eq_3 numeral_2_eq_2)
qed

section \<open>What a thread that only loads leaves behind\<close>

lemma trace_interfere: "trace (interfere w) = trace w"
  by (simp add: interfere_def split: list.splits)

lemma interfere_alone: "others w = [] \<Longrightarrow> interfere w = w"
  by (simp add: interfere_def)

lemma load_clock_trace: "load_clock w = (c, w') \<Longrightarrow> trace w' = trace w @ [LoadClock c]"
  by (auto simp: load_clock_def Let_def observe_def trace_interfere)

lemma load_value_trace: "load_value a w = Some (v, w') \<Longrightarrow> trace w' = trace w @ [LoadValue a v]"
  by (auto simp: load_value_def Let_def observe_def trace_interfere split: if_splits)

lemma reads_only_refl: "reads_only w w"
  by (simp add: reads_only_def)

lemma reads_only_trans: "reads_only w w1 \<Longrightarrow> reads_only w1 w2 \<Longrightarrow> reads_only w w2"
  by (auto simp: reads_only_def)

lemma load_clock_reads: "load_clock w = (c, w') \<Longrightarrow> reads_only w w'"
  by (auto simp: reads_only_def load_clock_def Let_def observe_def trace_interfere interfere_alone)

lemma load_value_reads: "load_value a w = Some (v, w') \<Longrightarrow> reads_only w w'"
  by (auto simp: reads_only_def load_value_def Let_def observe_def trace_interfere interfere_alone
      split: if_splits)

lemma validate_scan_reads: "validate_scan temp es w = (r, w') \<Longrightarrow> reads_only w w'"
proof (induction es arbitrary: w)
  case Nil
  then show ?case by (simp add: reads_only_refl)
next
  case (Cons e es)
  show ?case
  proof (cases "load_value (addr e) w")
    case None
    with Cons.prems show ?thesis by (simp add: reads_only_refl)
  next
    case (Some p)
    obtain v w1 where p: "p = (v, w1)" by (cases p)
    have r1: "reads_only w w1" using Some p by (simp add: load_value_reads)
    obtain c w2 where lc: "load_clock w1 = (c, w2)" by (cases "load_clock w1")
    have r2: "reads_only w w2" using r1 load_clock_reads [OF lc] by (rule reads_only_trans)
    consider "val e \<noteq> v" | "val e = v" "temp = c" | "val e = v" "temp \<noteq> c" by blast
    then show ?thesis
    proof cases
      case 1
      with Cons.prems Some p r1 show ?thesis by simp
    next
      case 2
      with Cons.prems Some p lc r2 show ?thesis by simp
    next
      case 3
      with Cons.prems Some p lc have "validate_scan temp es w2 = (r, w')" by simp
      from r2 Cons.IH [OF this] show ?thesis by (rule reads_only_trans)
    qed
  qed
qed

lemma tx_validate_reads: "tx_validate n w t = (r, w') \<Longrightarrow> reads_only w w'"
proof (induction n arbitrary: w)
  case 0
  then show ?case by (simp add: reads_only_refl)
next
  case (Suc n)
  obtain temp w1 where lc: "load_clock w = (temp, w1)" by (cases "load_clock w")
  have r1: "reads_only w w1" by (rule load_clock_reads [OF lc])
  show ?case
  proof (cases "temp AND 1 \<noteq> 0")
    case True
    with Suc.prems lc have "tx_validate n w1 t = (r, w')" by simp
    from r1 Suc.IH [OF this] show ?thesis by (rule reads_only_trans)
  next
    case False
    obtain q w2 where vs: "validate_scan temp (read_set t) w1 = (q, w2)"
      by (cases "validate_scan temp (read_set t) w1")
    have r2: "reads_only w w2" using r1 validate_scan_reads [OF vs] by (rule reads_only_trans)
    show ?thesis
    proof (cases "q = Returns None")
      case True
      with Suc.prems lc False vs have "tx_validate n w2 t = (r, w')" by simp
      from r2 Suc.IH [OF this] show ?thesis by (rule reads_only_trans)
    next
      case ne: False
      with Suc.prems lc False vs have "w' = w2"
        by (auto split: outcome.splits option.splits)
      with r2 show ?thesis by simp
    qed
  qed
qed

lemma begin_spin_reads: "begin_spin n w t = (r, w', t') \<Longrightarrow> reads_only w w'"
proof (induction n arbitrary: w t)
  case 0
  then show ?case by (simp add: reads_only_refl)
next
  case (Suc n)
  obtain c w1 where lc: "load_clock w = (c, w1)" by (cases "load_clock w")
  have r1: "reads_only w w1" by (rule load_clock_reads [OF lc])
  show ?case
  proof (cases "c AND 1 \<noteq> 0")
    case True
    with Suc.prems lc have "begin_spin n w1 (t\<lparr>rv := c\<rparr>) = (r, w', t')" by simp
    from r1 Suc.IH [OF this] show ?thesis by (rule reads_only_trans)
  next
    case False
    with Suc.prems lc r1 show ?thesis by simp
  qed
qed

lemma read_loop_reads: "read_loop n a v w t = (r, w', t') \<Longrightarrow> reads_only w w'"
proof (induction n arbitrary: v w t)
  case 0
  then show ?case by (simp add: reads_only_refl)
next
  case (Suc n)
  obtain c w1 where lc: "load_clock w = (c, w1)" by (cases "load_clock w")
  have r1: "reads_only w w1" by (rule load_clock_reads [OF lc])
  show ?case
  proof (cases "rv t \<noteq> c")
    case False
    with Suc.prems lc r1 show ?thesis by simp
  next
    case True
    obtain q w2 where tv: "tx_validate n w1 t = (q, w2)" by (cases "tx_validate n w1 t")
    have r2: "reads_only w w2" using r1 tx_validate_reads [OF tv] by (rule reads_only_trans)
    show ?thesis
    proof (cases q)
      case (Returns x)
      show ?thesis
      proof (cases "load_value a w2")
        case None
        with Suc.prems lc True tv Returns r2 show ?thesis by simp
      next
        case (Some p)
        obtain v' w3 where p: "p = (v', w3)" by (cases p)
        have r3: "reads_only w w3"
          using r2 load_value_reads [of a w2 v' w3] Some p by (auto intro: reads_only_trans)
        from Suc.prems lc True tv Returns Some p
        have "read_loop n a v' w3 (t\<lparr>rv := x\<rparr>) = (r, w', t')" by simp
        from r3 Suc.IH [OF this] show ?thesis by (rule reads_only_trans)
      qed
    next
      case (Throws m)
      with Suc.prems lc True tv r2 show ?thesis by simp
    next
      case Undefined
      with Suc.prems lc True tv r2 show ?thesis by simp
    next
      case Running
      with Suc.prems lc True tv r2 show ?thesis by simp
    qed
  qed
qed

lemma tx_read_reads: "tx_read n a w t = (r, w', t') \<Longrightarrow> reads_only w w'"
  by (auto simp: tx_read_def reads_only_refl split: option.splits
      dest: load_value_reads read_loop_reads intro: reads_only_trans)

lemma tx_begin_reads: "tx_begin n w t = (r, w', t') \<Longrightarrow> reads_only w w'"
  by (auto simp: tx_begin_def dest: begin_spin_reads)

section \<open>Validation with an empty read set\<close>

text \<open>
  The only \<^verbatim>\<open>return\<close> of \<^verbatim>\<open>tx_validate\<close> is in the body of the \<^verbatim>\<open>for\<close> loop. With an
  empty read set the body is never entered, whatever the clock is and whatever the other
  threads do.
\<close>

lemma tx_validate_empty_runs: "read_set t = [] \<Longrightarrow> fst (tx_validate n w t) = Running"
  by (induction n arbitrary: w) (auto split: prod.splits)

lemma read_loop_empty_runs:
  "read_set t = [] \<Longrightarrow> fst (load_clock w) \<noteq> rv t \<Longrightarrow> fst (read_loop n a v w t) = Running"
proof (cases n)
  case 0
  then show ?thesis by simp
next
  case (Suc k)
  assume rs: "read_set t = []" and ne: "fst (load_clock w) \<noteq> rv t"
  obtain c w1 where lc: "load_clock w = (c, w1)" by (cases "load_clock w")
  obtain q w2 where tv: "tx_validate k w1 t = (q, w2)" by (cases "tx_validate k w1 t")
  have "q = Running" using tx_validate_empty_runs [OF rs, of k w1] tv by simp
  with Suc lc tv ne show ?thesis by auto
qed

text \<open>
  C9 (as amended): with an empty read set \<^verbatim>\<open>tx_validate\<close> neither returns nor throws: for
  every amount of fuel, every memory and every behaviour of the other threads it is still
  running. So is \<^verbatim>\<open>tx_read\<close> of a cell that is not in the write set, when the read set is
  empty and the clock it loads after the cell differs from \<^verbatim>\<open>rv\<close>.
\<close>

theorem empty_read_set_never_validates:
  assumes "read_set t = []"
  shows "fst (tx_validate n w t) = Running \<and>
         (map_of (write_set t) a = None \<longrightarrow> load_value a w = Some (v, w1) \<longrightarrow>
          fst (load_clock w1) \<noteq> rv t \<longrightarrow> fst (tx_read n a w t) = Running)"
  using assms by (simp add: tx_validate_empty_runs read_loop_empty_runs tx_read_def)

theorem empty_read_set_never_validates_witness:
  "fst (tx_validate (Suc (Suc (Suc 0)))
          \<lparr>mem = \<lparr>accts = [\<lparr>addr = 0, val = 1000\<rparr>], global_clock = 2\<rparr>, others = [], trace = []\<rparr>
          tx_init) = Running \<and>
   fst (tx_read (Suc (Suc (Suc 0))) 0
          \<lparr>mem = \<lparr>accts = [\<lparr>addr = 0, val = 1000\<rparr>], global_clock = 2\<rparr>, others = [], trace = []\<rparr>
          tx_init) = Running"
  using empty_read_set_never_validates [of tx_init "Suc (Suc (Suc 0))"
      "\<lparr>mem = \<lparr>accts = [\<lparr>addr = 0, val = 1000\<rparr>], global_clock = 2\<rparr>, others = [], trace = []\<rparr>"
      0 1000
      "\<lparr>mem = \<lparr>accts = [\<lparr>addr = 0, val = 1000\<rparr>], global_clock = 2\<rparr>, others = [],
        trace = [LoadValue 0 1000]\<rparr>"]
  by (simp add: tx_init_def load_value_def load_clock_def interfere_def observe_def in_range_def)

text \<open>
  C9 as stated does not hold for an address that is in the write set: \<^verbatim>\<open>tx_read\<close> returns
  the buffered value before it compares \<^verbatim>\<open>rv\<close> with the clock. Here a transaction has
  written 950 to account 0 of the bank of \<^verbatim>\<open>main\<close> without reading anything, so its read
  set is empty and \<^verbatim>\<open>rv\<close> is 0, and the clock is at 2.
\<close>

theorem tx_read_buffered_returns:
  "tx_read (Suc 0) 0
     \<lparr>mem = \<lparr>accts = init_accts NUM_ACCTS, global_clock = 2\<rparr>, others = [], trace = []\<rparr>
     (tx_write 0 950 tx_init)
   = (Returns 950,
      \<lparr>mem = \<lparr>accts = init_accts NUM_ACCTS, global_clock = 2\<rparr>, others = [], trace = []\<rparr>,
      \<lparr>read_set = [], write_set = [(0, 950)], rv = 0\<rparr>)"
  by (simp add: tx_read_def tx_write_def tx_init_def emplace_def)

lemma tx_read_empty_runs:
  "read_set t = [] \<Longrightarrow> map_of (write_set t) a = None \<Longrightarrow> load_value a w = Some (v, w1) \<Longrightarrow>
   fst (load_clock w1) \<noteq> rv t \<Longrightarrow> fst (tx_read n a w t) = Running"
  by (simp add: tx_read_def read_loop_empty_runs)

text \<open>
  A transaction of another thread between \<^verbatim>\<open>tx_begin\<close> and the first \<^verbatim>\<open>tx_read\<close>, on
  any bank of at least three accounts of which the second and the third hold 1000.
\<close>

lemma foreign_commit_run:
  assumes len: "3 \<le> length cs" and v: "val (cs ! Suc 0) = 1000" "val (cs ! 2) = 1000"
  shows "(case tx_begin (Suc 0)
                 \<lparr>mem = \<lparr>accts = cs, global_clock = 0\<rparr>, others = [], trace = []\<rparr> tx_init of
            (rA, wA, tA) \<Rightarrow>
              (case th_run_attempt (Suc 0) 1 2 wA tx_init of
                 (rB, wB, tB) \<Rightarrow> (rA, rB, mem wB, others wB, tA)))
         = (Returns (), Returns False,
            \<lparr>accts = cs[Suc 0 := (cs ! Suc 0)\<lparr>val := 950\<rparr>, 2 := (cs ! 2)\<lparr>val := 1050\<rparr>],
             global_clock = 2\<rparr>,
            [], \<lparr>read_set = [], write_set = [], rv = 0\<rparr>)"
proof -
  from len have l: "cs \<noteq> []" "Suc 0 < length cs" "2 < length cs" by auto
  show ?thesis
    using l v by (simp add: run_defs ten_rounds)
qed

text \<open>
  C5: \<^verbatim>\<open>tx_read\<close> need not end. On the bank that \<^verbatim>\<open>main\<close> sets up, thread A begins a
  transaction; thread B runs a whole transfer from account 1 to account 2 and commits, which
  moves the clock to 2; the first \<^verbatim>\<open>tx_read\<close> of thread A then finds \<^verbatim>\<open>rv\<close> = 0 behind the
  clock, calls \<^verbatim>\<open>tx_validate\<close> with its empty read set, and is still running after any
  number \<open>n\<close> of iterations, although no thread touches the memory any more.
\<close>

theorem tx_read_spins_after_foreign_commit:
  "(case tx_begin (Suc 0) (main_init NUM_ACCTS) tx_init of
      (rA, wA, tA) \<Rightarrow>
        (case th_run_attempt (Suc 0) 1 2 wA tx_init of
           (rB, wB, tB) \<Rightarrow> (rA, rB, global_clock (mem wB), tA, fst (tx_read n 0 wB tA))))
   = (Returns (), Returns False, 2, \<lparr>read_set = [], write_set = [], rv = 0\<rparr>, Running)"
proof -
  let ?cs = "init_accts NUM_ACCTS"
  have len: "3 \<le> length ?cs" by (simp add: length_init_accts NUM_ACCTS_def)
  have v: "val (?cs ! Suc 0) = 1000" "val (?cs ! 2) = 1000"
    by (simp_all add: nth_init_accts NUM_ACCTS_def)
  obtain rA wA tA where a: "tx_begin (Suc 0) (main_init NUM_ACCTS) tx_init = (rA, wA, tA)"
    by (cases "tx_begin (Suc 0) (main_init NUM_ACCTS) tx_init")
  obtain rB wB tB where b: "th_run_attempt (Suc 0) 1 2 wA tx_init = (rB, wB, tB)"
    by (cases "th_run_attempt (Suc 0) 1 2 wA tx_init")
  from foreign_commit_run [OF len v] a b
  have r: "rA = Returns ()" "rB = Returns False" "global_clock (mem wB) = 2" "others wB = []"
    "length (accts (mem wB)) = length ?cs" "tA = \<lparr>read_set = [], write_set = [], rv = 0\<rparr>"
    by (simp_all add: main_init_def)
  have "fst (tx_read n 0 wB tA) = Running"
  proof (rule tx_read_empty_runs)
    show "read_set tA = []" "map_of (write_set tA) 0 = None" using r by simp_all
    show "load_value 0 wB =
        Some (val (accts (mem wB) ! 0), observe (LoadValue 0 (val (accts (mem wB) ! 0))) wB)"
    proof -
      from r len have "accts (mem wB) \<noteq> []" by auto
      with r show ?thesis by (simp add: load_value_def interfere_alone in_range_def Let_def)
    qed
    show "fst (load_clock (observe (LoadValue 0 (val (accts (mem wB) ! 0))) wB)) \<noteq> rv tA"
      using r by (simp add: load_clock_def interfere_def observe_def)
  qed
  with a b r show ?thesis by simp
qed

section \<open>The write set\<close>

text \<open>
  A first write to an address is buffered and read back; a later write to the same address
  changes nothing. In \<^verbatim>\<open>th_run\<close> the rounds after the first find both accounts in the
  write set, so they read the buffered balances and write in vain.
\<close>

lemma tx_write_fresh:
  "map_of (write_set t) a = None \<Longrightarrow>
   tx_read n a w (tx_write a v t) = (Returns v, w, tx_write a v t) \<and>
   write_set (tx_write a v t) = write_set t @ [(a, v)]"
  by (simp add: tx_read_def tx_write_def emplace_def map_add_def)

lemma tx_write_again:
  "map_of (write_set t) a = Some v0 \<Longrightarrow> tx_write a v t = t"
  by (simp add: tx_write_def emplace_def)

lemma transfers_buffered:
  assumes "map_of (write_set t) r1 = Some a1" and "map_of (write_set t) r2 = Some a2"
    and "\<not> a1 <s TRFR_AMT" and "\<not> 2147483647 < sint a2 + sint TRFR_AMT"
  shows "transfers j n r1 r2 w t = (Returns (), w, t)"
  using assms by (induction j) (simp_all add: tx_read_def tx_write_again)

text \<open>
  C1: the first value written to an address stays. After \<^verbatim>\<open>tx_write(a, v1)\<close> and
  \<^verbatim>\<open>tx_write(a, v2)\<close> in a fresh transaction the write set holds \<open>(a, v1)\<close> alone, and
  \<^verbatim>\<open>tx_read(a)\<close> returns \<open>v1\<close>, with the world (memory and trace) and the read set
  untouched.
\<close>

theorem tx_write_keeps_first_value:
  "tx_read n a w (tx_write a v2 (tx_write a v1 tx_init)) =
     (Returns v1, w, \<lparr>read_set = [], write_set = [(a, v1)], rv = 0\<rparr>)"
  by (simp add: tx_read_def tx_write_def tx_init_def emplace_def)

section \<open>Validation stops at the first entry\<close>

text \<open>
  C2: \<^verbatim>\<open>tx_validate\<close> returns after it has compared one entry. The bank is the one of
  \<^verbatim>\<open>main\<close> after a committed transfer from account 1 to account 2: the cells 1 and 2 hold
  950 and 1050, the clock rests at 2, and no other thread runs. The read set records 1000 for
  the cells 0 and 1. \<^verbatim>\<open>tx_validate\<close> loads the clock, loads cell 0, loads the clock again
  and returns 2; cell 1 is never loaded.
\<close>

theorem tx_validate_returns_after_first_entry:
  "tx_validate (Suc n)
     \<lparr>mem = \<lparr>accts = (init_accts NUM_ACCTS)
                [1 := \<lparr>addr = 1, val = 950\<rparr>, 2 := \<lparr>addr = 2, val = 1050\<rparr>],
             global_clock = 2\<rparr>,
      others = [], trace = []\<rparr>
     \<lparr>read_set = [\<lparr>addr = 0, val = 1000\<rparr>, \<lparr>addr = 1, val = 1000\<rparr>], write_set = ws, rv = 0\<rparr>
   = (Returns 2,
      \<lparr>mem = \<lparr>accts = (init_accts NUM_ACCTS)
                 [1 := \<lparr>addr = 1, val = 950\<rparr>, 2 := \<lparr>addr = 2, val = 1050\<rparr>],
              global_clock = 2\<rparr>,
       others = [], trace = [LoadClock 2, LoadValue 0 1000, LoadClock 2]\<rparr>)"
proof -
  let ?cs = "init_accts NUM_ACCTS"
  have "length ?cs = 1000000" by (simp add: length_init_accts NUM_ACCTS_def)
  then have l: "?cs \<noteq> []" "Suc 0 < length ?cs" "2 < length ?cs" by auto
  have v: "val (?cs ! 0) = 1000" by (simp add: nth_init_accts NUM_ACCTS_def)
  show ?thesis
    using l v
    by (simp add: load_clock_def load_value_def interfere_def observe_def in_range_def)
qed

section \<open>Two transfers that overlap\<close>

text \<open>
  The run described below, on any bank of at least three accounts of which the first three
  hold 1000: the accesses of the commit of thread A and the cells at the end, and the total
  at the end.
\<close>

lemma overlap_run:
  assumes len: "3 \<le> length cs"
    and v: "val (cs ! 0) = 1000" "val (cs ! Suc 0) = 1000" "val (cs ! 2) = 1000"
  shows "(case th_run_body (Suc 0) 0 1
                 \<lparr>mem = \<lparr>accts = cs, global_clock = 0\<rparr>, others = [], trace = []\<rparr> tx_init of
      (rA, wA, tA) \<Rightarrow>
        (case th_run_attempt (Suc 0) 1 2 wA tx_init of
           (rB, wB, tB) \<Rightarrow>
             (case tx_commit (Suc (Suc 0)) wB tA of
                (rC, wC, tC) \<Rightarrow>
                  (rA, rB, rC, drop (length (trace wB)) (trace wC), accts (mem wC)))))
   = (Returns (), Returns False, Returns (),
      [CasClock 0 1 False, LoadClock 2, LoadValue 0 1000, LoadClock 2, CasClock 2 3 True,
       StoreValue 0 950, StoreValue 1 1050, StoreClock 4],
      cs[Suc 0 := (cs ! Suc 0)\<lparr>val := 950\<rparr>, 2 := (cs ! 2)\<lparr>val := 1050\<rparr>,
         0 := (cs ! 0)\<lparr>val := 950\<rparr>, Suc 0 := (cs ! Suc 0)\<lparr>val := 1050\<rparr>])"
proof -
  from len have l: "cs \<noteq> []" "Suc 0 < length cs" "2 < length cs" by auto
  show ?thesis
    using l v by (simp add: run_defs ten_rounds)
qed

lemma overlap_total:
  assumes len: "3 \<le> length cs"
    and v: "val (cs ! 0) = 1000" "val (cs ! Suc 0) = 1000" "val (cs ! 2) = 1000"
  shows "totalMoney (cs[Suc 0 := (cs ! Suc 0)\<lparr>val := 950\<rparr>, 2 := (cs ! 2)\<lparr>val := 1050\<rparr>,
                        0 := (cs ! 0)\<lparr>val := 950\<rparr>, Suc 0 := (cs ! Suc 0)\<lparr>val := 1050\<rparr>])
         = totalMoney cs + 50"
proof -
  from len have l: "0 < length cs" "Suc 0 < length cs" "2 < length cs" by auto
  show ?thesis using l v by (simp add: totalMoney_update)
qed

text \<open>
  C3: the total is not conserved. The bank is the one \<^verbatim>\<open>main\<close> sets up: 1000000 accounts
  of 1000 each. Thread A runs its transaction from account 0 to account 1 up to the call of
  \<^verbatim>\<open>tx_commit\<close>; thread B then runs a whole transaction from account 1 to account 2 and
  commits; thread A then calls \<^verbatim>\<open>tx_commit\<close>. Its validation compares cell 0 only and
  returns, so that A commits the balance 1050 it computed for account 1 from the value 1000
  that B has replaced by 950. Both transactions commit; the first three accounts end with
  950, 1050 and 1050, and the total goes from 1000000000 to 1000000050.
\<close>

theorem interleaved_transfers_create_money:
  "(case th_run_body (Suc 0) 0 1 (main_init NUM_ACCTS) tx_init of
      (rA, wA, tA) \<Rightarrow>
        (case th_run_attempt (Suc 0) 1 2 wA tx_init of
           (rB, wB, tB) \<Rightarrow>
             (case tx_commit (Suc (Suc 0)) wB tA of
                (rC, wC, tC) \<Rightarrow>
                  (rA, rB, rC, drop (length (trace wB)) (trace wC),
                   map val (take 3 (accts (mem wC))),
                   totalMoney (accts (mem (main_init NUM_ACCTS))),
                   totalMoney (accts (mem wC))))))
   = (Returns (), Returns False, Returns (),
      [CasClock 0 1 False, LoadClock 2, LoadValue 0 1000, LoadClock 2, CasClock 2 3 True,
       StoreValue 0 950, StoreValue 1 1050, StoreClock 4],
      [950, 1050, 1050],
      1000000000, 1000000050)"
proof -
  let ?cs = "init_accts NUM_ACCTS"
  have len: "3 \<le> length ?cs" by (simp add: length_init_accts NUM_ACCTS_def)
  have v: "val (?cs ! 0) = 1000" "val (?cs ! Suc 0) = 1000" "val (?cs ! 2) = 1000"
    by (simp_all add: nth_init_accts NUM_ACCTS_def)
  have t0: "totalMoney ?cs = 1000000000"
    by (simp add: totalMoney_init_accts NUM_ACCTS_def)
  have t1: "totalMoney (?cs[Suc 0 := (?cs ! Suc 0)\<lparr>val := 950\<rparr>, 2 := (?cs ! 2)\<lparr>val := 1050\<rparr>,
                        0 := (?cs ! 0)\<lparr>val := 950\<rparr>, Suc 0 := (?cs ! Suc 0)\<lparr>val := 1050\<rparr>])
            = 1000000050"
    using overlap_total [OF len v] t0 by simp
  have three: "map val (take 3 (?cs[Suc 0 := (?cs ! Suc 0)\<lparr>val := 950\<rparr>,
                    2 := (?cs ! 2)\<lparr>val := 1050\<rparr>,
                    0 := (?cs ! 0)\<lparr>val := 950\<rparr>, Suc 0 := (?cs ! Suc 0)\<lparr>val := 1050\<rparr>]))
               = [950, 1050, 1050]"
  proof -
    from len have "0 < length ?cs" "Suc 0 < length ?cs" "2 < length ?cs" by auto
    with len show ?thesis by (simp add: take_3)
  qed
  note run = overlap_run [OF len v]
  show ?thesis
    using run t0 t1 three
    by (simp add: main_init_def split: prod.splits)
qed

section \<open>Commit\<close>

subsection \<open>Waiting for the clock\<close>

lemma is_load_waiting: "list_all is_load evs \<Longrightarrow> list_all waiting evs"
proof (induction evs)
  case Nil
  then show ?case by simp
next
  case (Cons e evs)
  then show ?case by (cases e) simp_all
qed

lemma reads_only_waits: "reads_only w w' \<Longrightarrow> waits w w'"
  by (auto simp: reads_only_def waits_def dest: is_load_waiting)

lemma waits_refl: "waits w w"
  by (simp add: waits_def)

lemma waits_trans: "waits w w1 \<Longrightarrow> waits w1 w2 \<Longrightarrow> waits w w2"
  by (auto simp: waits_def)

lemma cas_clock_fails: "cas_clock e (e + 1) w = (False, w') \<Longrightarrow> waits w w'"
  by (auto simp: cas_clock_def waits_def Let_def observe_def trace_interfere interfere_alone
      split: if_splits)

lemma cas_clock_succeeds:
  "cas_clock e n w = (True, w') \<Longrightarrow>
   trace w' = trace w @ [CasClock e n True] \<and> global_clock (mem w') = n \<and>
   (others w = [] \<longrightarrow> others w' = [] \<and> global_clock (mem w) = e \<and> mem w' = (mem w)\<lparr>global_clock := n\<rparr>)"
  by (auto simp: cas_clock_def Let_def observe_def trace_interfere interfere_alone
      split: if_splits)

lemma commit_cas_sets: "commit_cas n w t = (r, w', t') \<Longrightarrow> read_set t' = read_set t \<and> write_set t' = write_set t"
proof (induction n arbitrary: w t)
  case 0
  then show ?case by simp
next
  case (Suc n)
  obtain b w1 where cas: "cas_clock (rv t) (rv t + 1) w = (b, w1)"
    by (cases "cas_clock (rv t) (rv t + 1) w")
  obtain q w2 where tv: "tx_validate n w1 t = (q, w2)" by (cases "tx_validate n w1 t")
  show ?case
  proof (cases b)
    case True
    with Suc.prems cas show ?thesis by simp
  next
    case False
    show ?thesis
    proof (cases q)
      case (Returns x)
      with Suc.prems cas False tv have "commit_cas n w2 (t\<lparr>rv := x\<rparr>) = (r, w', t')" by simp
      from Suc.IH [OF this] show ?thesis by simp
    qed (use Suc.prems cas False tv in auto)
  qed
qed

text \<open>
  When the loop of \<^verbatim>\<open>tx_commit\<close> is left, the thread has waited up to some world \<open>w0\<close> and
  the compare-and-swap from \<^verbatim>\<open>rv\<close> to \<^verbatim>\<open>rv + 1\<close> has succeeded there.
\<close>

lemma commit_cas_returns:
  "commit_cas n w t = (Returns u, w', t') \<Longrightarrow>
   \<exists>w0. waits w w0 \<and> cas_clock (rv t') (rv t' + 1) w0 = (True, w')"
proof (induction n arbitrary: w t)
  case 0
  then show ?case by simp
next
  case (Suc n)
  obtain b w1 where cas: "cas_clock (rv t) (rv t + 1) w = (b, w1)"
    by (cases "cas_clock (rv t) (rv t + 1) w")
  show ?case
  proof (cases b)
    case True
    with Suc.prems cas have "w' = w1" "t' = t" by simp_all
    with cas True have "waits w w \<and> cas_clock (rv t') (rv t' + 1) w = (True, w')"
      by (simp add: waits_refl)
    then show ?thesis by (rule exI)
  next
    case False
    have s1: "waits w w1" using cas False by (simp add: cas_clock_fails)
    obtain q w2 where tv: "tx_validate n w1 t = (q, w2)" by (cases "tx_validate n w1 t")
    have s2: "waits w w2"
      using s1 reads_only_waits [OF tx_validate_reads [OF tv]] by (rule waits_trans)
    show ?thesis
    proof (cases q)
      case (Returns x)
      with Suc.prems cas False tv have "commit_cas n w2 (t\<lparr>rv := x\<rparr>) = (Returns u, w', t')"
        by simp
      from Suc.IH [OF this] obtain w0
        where w0: "waits w2 w0" "cas_clock (rv t') (rv t' + 1) w0 = (True, w')" by blast
      have "waits w w0" using s2 w0(1) by (rule waits_trans)
      with w0(2) have "waits w w0 \<and> cas_clock (rv t') (rv t' + 1) w0 = (True, w')" by simp
      then show ?thesis by (rule exI)
    qed (use Suc.prems cas False tv in auto)
  qed
qed

text \<open>Left in any other way, the loop has only waited.\<close>

lemma commit_cas_waits:
  "commit_cas n w t = (r, w', t') \<Longrightarrow> \<forall>u. r \<noteq> Returns u \<Longrightarrow> waits w w'"
proof (induction n arbitrary: w t)
  case 0
  then show ?case by (simp add: waits_refl)
next
  case (Suc n)
  obtain b w1 where cas: "cas_clock (rv t) (rv t + 1) w = (b, w1)"
    by (cases "cas_clock (rv t) (rv t + 1) w")
  show ?case
  proof (cases b)
    case True
    with Suc.prems cas show ?thesis by simp
  next
    case False
    have s1: "waits w w1" using cas False by (simp add: cas_clock_fails)
    obtain q w2 where tv: "tx_validate n w1 t = (q, w2)" by (cases "tx_validate n w1 t")
    have s2: "waits w w2"
      using s1 reads_only_waits [OF tx_validate_reads [OF tv]] by (rule waits_trans)
    show ?thesis
    proof (cases q)
      case (Returns x)
      with Suc.prems cas False tv have "commit_cas n w2 (t\<lparr>rv := x\<rparr>) = (r, w', t')" by simp
      from s2 Suc.IH [OF this Suc.prems(2)] show ?thesis by (rule waits_trans)
    qed (use Suc.prems cas False tv s2 in auto)
  qed
qed

subsection \<open>Writing back\<close>

lemma store_value_trace:
  "store_value a v w = Some w' \<Longrightarrow>
   trace w' = trace w @ [StoreValue a v] \<and>
   (others w = [] \<longrightarrow> others w' = [] \<and> mem w' = set_value a v (mem w))"
  by (auto simp: store_value_def Let_def observe_def trace_interfere interfere_alone
      split: if_splits)

lemma write_back_trace:
  "write_back xs w = Some w' \<Longrightarrow>
   trace w' = trace w @ map (\<lambda>(a, v). StoreValue a v) xs \<and>
   (others w = [] \<longrightarrow> others w' = [] \<and> mem w' = fold (\<lambda>(a, v). set_value a v) xs (mem w))"
proof (induction xs arbitrary: w)
  case Nil
  then show ?case by simp
next
  case (Cons x xs)
  obtain a v where x: "x = (a, v)" by (cases x)
  from Cons.prems x obtain w1 where sv: "store_value a v w = Some w1"
    and wb: "write_back xs w1 = Some w'"
    by (auto split: option.splits)
  from store_value_trace [OF sv] Cons.IH [OF wb] x show ?case by auto
qed

lemma store_clock_trace:
  "trace (store_clock c w) = trace w @ [StoreClock c] \<and> global_clock (mem (store_clock c w)) = c \<and>
   (others w = [] \<longrightarrow> others (store_clock c w) = [] \<and> mem (store_clock c w) = (mem w)\<lparr>global_clock := c\<rparr>)"
  by (simp add: store_clock_def Let_def observe_def trace_interfere interfere_alone)

lemma set_value_clock_update: "set_value a v (s\<lparr>global_clock := c\<rparr>) = (set_value a v s)\<lparr>global_clock := c\<rparr>"
  by (simp add: set_value_def)

lemma fold_set_value_accts:
  "accts (fold (\<lambda>(a, v). set_value a v) xs (s\<lparr>global_clock := c\<rparr>)) = accts (fold (\<lambda>(a, v). set_value a v) xs s)"
proof (induction xs arbitrary: s)
  case Nil
  then show ?case by simp
next
  case (Cons x xs)
  obtain a v where x: "x = (a, v)" by (cases x)
  show ?case using Cons.IH [of "set_value a v s"] x by (simp add: set_value_clock_update)
qed

lemma tx_commit_unfold:
  "write_set t \<noteq> [] \<Longrightarrow> commit_cas n w t = (q, w1, t1) \<Longrightarrow>
   tx_commit n w t =
     (case q of
        Returns u \<Rightarrow>
          (case write_back (write_set t1) w1 of
             None \<Rightarrow> (Undefined, w1, t1)
           | Some w2 \<Rightarrow> (Returns (), store_clock (rv t1 + 2) w2, t1))
      | Throws m \<Rightarrow> (Throws m, w1, t1)
      | Undefined \<Rightarrow> (Undefined, w1, t1)
      | Running \<Rightarrow> (Running, w1, t1))"
  by (simp add: tx_commit_def split: outcome.splits)

text \<open>The shape of a commit that writes.\<close>

lemma tx_commit_returns:
  assumes "write_set t \<noteq> []" and "tx_commit n w t = (Returns u, w', t')"
  shows "\<exists>w0 w1 w2. waits w w0 \<and> cas_clock (rv t') (rv t' + 1) w0 = (True, w1) \<and>
           write_back (write_set t) w1 = Some w2 \<and> w' = store_clock (rv t' + 2) w2 \<and>
           read_set t' = read_set t \<and> write_set t' = write_set t"
proof -
  obtain r w1 t1 where cc: "commit_cas n w t = (r, w1, t1)" by (cases "commit_cas n w t")
  have eq: "(case r of
               Returns u \<Rightarrow>
                 (case write_back (write_set t1) w1 of
                    None \<Rightarrow> (Undefined, w1, t1)
                  | Some w2 \<Rightarrow> (Returns (), store_clock (rv t1 + 2) w2, t1))
             | Throws m \<Rightarrow> (Throws m, w1, t1)
             | Undefined \<Rightarrow> (Undefined, w1, t1)
             | Running \<Rightarrow> (Running, w1, t1)) = (Returns u, w', t')"
    using assms by (simp add: tx_commit_def cc split: outcome.splits)
  then obtain x where r: "r = Returns x" by (cases r) simp_all
  from eq r have "\<exists>w2. write_back (write_set t1) w1 = Some w2 \<and>
      w' = store_clock (rv t1 + 2) w2 \<and> t' = t1"
    by (cases "write_back (write_set t1) w1") auto
  then obtain w2 where wb: "write_back (write_set t1) w1 = Some w2"
    and w': "w' = store_clock (rv t1 + 2) w2" and t': "t' = t1"
    by blast
  from commit_cas_returns [of n w t x w1 t1] cc r obtain w0
    where w0: "waits w w0" "cas_clock (rv t1) (rv t1 + 1) w0 = (True, w1)" by auto
  have sets: "read_set t1 = read_set t" "write_set t1 = write_set t"
    using commit_cas_sets [OF cc] by simp_all
  show ?thesis
    unfolding t'
    apply (rule exI [of _ w0], rule exI [of _ w1], rule exI [of _ w2])
    using w0 wb w' sets apply simp
    done
qed

text \<open>
  C7: with an empty write set \<^verbatim>\<open>tx_commit\<close> returns at once, for any fuel: the world is
  the one it was called in (same cells, same clock, no access added to the trace, so no
  compare-and-swap), and so is the thread-local state.
\<close>

theorem tx_commit_read_only:
  "write_set t = [] \<Longrightarrow> tx_commit n w t = (Returns (), w, t)"
  by (simp add: tx_commit_def)

theorem tx_commit_read_only_witness:
  "tx_commit 0 (main_init 2) \<lparr>read_set = [\<lparr>addr = 1, val = 1000\<rparr>], write_set = [], rv = 0\<rparr> =
     (Returns (), main_init 2, \<lparr>read_set = [\<lparr>addr = 1, val = 1000\<rparr>], write_set = [], rv = 0\<rparr>)"
  using tx_commit_read_only
    [of "\<lparr>read_set = [\<lparr>addr = 1, val = 1000\<rparr>], write_set = [], rv = 0\<rparr>" 0 "main_init 2"]
  by simp

lemma unat_plus_2: "unat (x :: 32 word) < 4294967294 \<Longrightarrow> unat (x + 2) = unat x + 2"
  by (simp add: unat_word_ariths)

lemma waits_trace: "waits w w' \<Longrightarrow> \<exists>evs. trace w' = trace w @ evs \<and> list_all waiting evs"
  by (simp add: waits_def)

lemma waits_alone: "waits w w' \<Longrightarrow> others w = [] \<Longrightarrow> mem w' = mem w \<and> others w' = []"
  by (simp add: waits_def)

text \<open>
  The accesses of a commit that writes, the clock it leaves, and what it finds and leaves
  when the thread runs alone.
\<close>

lemma tx_commit_accesses:
  assumes "write_set t \<noteq> []" and "tx_commit n w t = (Returns u, w', t')"
  shows "(\<exists>pre. list_all waiting pre \<and>
            trace w' = trace w @ pre @ CasClock (rv t') (rv t' + 1) True #
              map (\<lambda>(a, v). StoreValue a v) (write_set t) @ [StoreClock (rv t' + 2)]) \<and>
         global_clock (mem w') = rv t' + 2 \<and>
         (others w = [] \<longrightarrow>
            rv t' = global_clock (mem w) \<and>
            accts (mem w') = accts (fold (\<lambda>(a, v). set_value a v) (write_set t) (mem w)))"
proof -
  from tx_commit_returns [OF assms] obtain w0 w1 w2
    where wt: "waits w w0" and cas: "cas_clock (rv t') (rv t' + 1) w0 = (True, w1)"
      and wb: "write_back (write_set t) w1 = Some w2" and w': "w' = store_clock (rv t' + 2) w2"
    by blast
  from waits_trace [OF wt] obtain pre where pre: "trace w0 = trace w @ pre" "list_all waiting pre"
    by blast
  note c = cas_clock_succeeds [OF cas] and b = write_back_trace [OF wb]
    and s = store_clock_trace [of "rv t' + 2" w2]
  have tr: "trace w' = trace w @ pre @ CasClock (rv t') (rv t' + 1) True #
              map (\<lambda>(a, v). StoreValue a v) (write_set t) @ [StoreClock (rv t' + 2)]"
    using pre(1) c b s w' by simp
  have clk: "global_clock (mem w') = rv t' + 2" using s w' by simp
  have alone: "rv t' = global_clock (mem w) \<and>
      accts (mem w') = accts (fold (\<lambda>(a, v). set_value a v) (write_set t) (mem w))"
    if "others w = []"
  proof -
    from waits_alone [OF wt that] have m0: "mem w0 = mem w" "others w0 = []" by simp_all
    with c have m1: "global_clock (mem w) = rv t'" "others w1 = []"
      "mem w1 = (mem w)\<lparr>global_clock := rv t' + 1\<rparr>" by simp_all
    with b have m2: "others w2 = []"
      "mem w2 = fold (\<lambda>(a, v). set_value a v) (write_set t) ((mem w)\<lparr>global_clock := rv t' + 1\<rparr>)"
      by simp_all
    with s w' have "mem w' = (mem w2)\<lparr>global_clock := rv t' + 2\<rparr>" by simp
    with m2 m1 show ?thesis by (simp add: fold_set_value_accts)
  qed
  from tr pre(2) clk alone show ?thesis by auto
qed

section \<open>Fuel\<close>

text \<open>
  Fuel only bounds how long a call is followed: a call that has ended with some fuel ends in
  the same way with more.
\<close>

lemma tx_validate_Suc:
  "fst (tx_validate n w t) \<noteq> Running \<Longrightarrow> tx_validate (Suc n) w t = tx_validate n w t"
proof (induction n arbitrary: w)
  case 0
  then show ?case by simp
next
  case (Suc n)
  obtain temp w1 where lc: "load_clock w = (temp, w1)" by (cases "load_clock w")
  show ?case
  proof (cases "temp AND 1 \<noteq> 0")
    case True
    with Suc.prems lc have "fst (tx_validate n w1 t) \<noteq> Running" by simp
    from Suc.IH [OF this] lc True show ?thesis by simp
  next
    case False
    obtain q w2 where vs: "validate_scan temp (read_set t) w1 = (q, w2)"
      by (cases "validate_scan temp (read_set t) w1")
    show ?thesis
    proof (cases "q = Returns None")
      case True
      with Suc.prems lc False vs have "fst (tx_validate n w2 t) \<noteq> Running" by simp
      from Suc.IH [OF this] lc False vs True show ?thesis by simp
    next
      case ne: False
      have "tx_validate (Suc m) w t =
          (case q of Returns (Some r) \<Rightarrow> (Returns r, w2) | Throws m \<Rightarrow> (Throws m, w2)
           | Undefined \<Rightarrow> (Undefined, w2) | Running \<Rightarrow> (Running, w2))" for m
        using lc False vs ne by (auto split: outcome.splits option.splits)
      then show ?thesis by simp
    qed
  qed
qed

lemma tx_validate_fuel:
  "fst (tx_validate n w t) \<noteq> Running \<Longrightarrow> tx_validate (n + k) w t = tx_validate n w t"
proof (induction k)
  case 0
  then show ?case by simp
next
  case (Suc k)
  then have eq: "tx_validate (n + k) w t = tx_validate n w t" by simp
  with Suc.prems have "fst (tx_validate (n + k) w t) \<noteq> Running" by simp
  from tx_validate_Suc [OF this] eq show ?case by (simp only: add_Suc_right)
qed

lemma begin_spin_Suc:
  "fst (begin_spin n w t) \<noteq> Running \<Longrightarrow> begin_spin (Suc n) w t = begin_spin n w t"
proof (induction n arbitrary: w t)
  case 0
  then show ?case by simp
next
  case (Suc n)
  obtain c w1 where lc: "load_clock w = (c, w1)" by (cases "load_clock w")
  show ?case
  proof (cases "c AND 1 \<noteq> 0")
    case True
    with Suc.prems lc have "fst (begin_spin n w1 (t\<lparr>rv := c\<rparr>)) \<noteq> Running" by simp
    from Suc.IH [OF this] lc True show ?thesis by simp
  next
    case False
    with lc show ?thesis by simp
  qed
qed

lemma tx_begin_fuel:
  "fst (tx_begin n w t) \<noteq> Running \<Longrightarrow> tx_begin (n + k) w t = tx_begin n w t"
proof (induction k)
  case 0
  then show ?case by simp
next
  case (Suc k)
  then have eq: "tx_begin (n + k) w t = tx_begin n w t" by simp
  with Suc.prems have "fst (tx_begin (n + k) w t) \<noteq> Running" by simp
  then have "tx_begin (Suc (n + k)) w t = tx_begin (n + k) w t"
    unfolding tx_begin_def by (rule begin_spin_Suc)
  with eq show ?case by (simp only: add_Suc_right)
qed

lemma read_loop_Suc:
  "fst (read_loop n a v w t) \<noteq> Running \<Longrightarrow> read_loop (Suc n) a v w t = read_loop n a v w t"
proof (induction n arbitrary: v w t)
  case 0
  then show ?case by simp
next
  case (Suc n)
  obtain c w1 where lc: "load_clock w = (c, w1)" by (cases "load_clock w")
  show ?case
  proof (cases "rv t \<noteq> c")
    case False
    with lc show ?thesis by simp
  next
    case True
    obtain q w2 where tv: "tx_validate n w1 t = (q, w2)" by (cases "tx_validate n w1 t")
    from Suc.prems lc True tv have nr: "q \<noteq> Running" by auto
    with tv have "fst (tx_validate n w1 t) \<noteq> Running" by simp
    from trans [OF tx_validate_Suc [OF this] tv]
    have tv': "tx_validate (Suc n) w1 t = (q, w2)" .
    show ?thesis
    proof (cases q)
      case (Returns x)
      show ?thesis
      proof (cases "load_value a w2")
        case None
        with lc True tv tv' Returns show ?thesis by simp
      next
        case (Some p)
        obtain v' w3 where p: "p = (v', w3)" by (cases p)
        from Suc.prems lc True tv Returns Some p
        have "fst (read_loop n a v' w3 (t\<lparr>rv := x\<rparr>)) \<noteq> Running" by simp
        from Suc.IH [OF this] lc True tv tv' Returns Some p show ?thesis by simp
      qed
    qed (use lc True tv tv' nr in auto)
  qed
qed

lemma tx_read_fuel:
  "fst (tx_read n a w t) \<noteq> Running \<Longrightarrow> tx_read (n + k) a w t = tx_read n a w t"
proof (induction k)
  case 0
  then show ?case by simp
next
  case (Suc k)
  then have eq: "tx_read (n + k) a w t = tx_read n a w t" by simp
  with Suc.prems have nr: "fst (tx_read (n + k) a w t) \<noteq> Running" by simp
  have "tx_read (Suc (n + k)) a w t = tx_read (n + k) a w t"
  proof (cases "map_of (write_set t) a")
    case (Some x)
    then show ?thesis by (simp add: tx_read_def)
  next
    case None
    show ?thesis
    proof (cases "load_value a w")
      case n: None
      with None show ?thesis by (simp add: tx_read_def)
    next
      case (Some p)
      obtain v w1 where p: "p = (v, w1)" by (cases p)
      from nr None Some p have "fst (read_loop (n + k) a v w1 t) \<noteq> Running"
        by (simp add: tx_read_def)
      from read_loop_Suc [OF this] None Some p show ?thesis by (simp add: tx_read_def)
    qed
  qed
  with eq show ?case by (simp only: add_Suc_right)
qed

lemma commit_cas_Suc:
  "fst (commit_cas n w t) \<noteq> Running \<Longrightarrow> commit_cas (Suc n) w t = commit_cas n w t"
proof (induction n arbitrary: w t)
  case 0
  then show ?case by simp
next
  case (Suc n)
  obtain b w1 where cas: "cas_clock (rv t) (rv t + 1) w = (b, w1)"
    by (cases "cas_clock (rv t) (rv t + 1) w")
  show ?case
  proof (cases b)
    case True
    with cas show ?thesis by simp
  next
    case False
    obtain q w2 where tv: "tx_validate n w1 t = (q, w2)" by (cases "tx_validate n w1 t")
    from Suc.prems cas False tv have nr: "q \<noteq> Running" by auto
    with tv have "fst (tx_validate n w1 t) \<noteq> Running" by simp
    from trans [OF tx_validate_Suc [OF this] tv]
    have tv': "tx_validate (Suc n) w1 t = (q, w2)" .
    show ?thesis
    proof (cases q)
      case (Returns x)
      from Suc.prems cas False tv Returns
      have "fst (commit_cas n w2 (t\<lparr>rv := x\<rparr>)) \<noteq> Running" by simp
      from Suc.IH [OF this] cas False tv tv' Returns show ?thesis by simp
    qed (use cas False tv tv' nr in auto)
  qed
qed

lemma commit_cas_fuel:
  "fst (commit_cas n w t) \<noteq> Running \<Longrightarrow> commit_cas (n + k) w t = commit_cas n w t"
proof (induction k)
  case 0
  then show ?case by simp
next
  case (Suc k)
  then have eq: "commit_cas (n + k) w t = commit_cas n w t" by simp
  with Suc.prems have "fst (commit_cas (n + k) w t) \<noteq> Running" by simp
  from commit_cas_Suc [OF this] eq show ?case by (simp only: add_Suc_right)
qed

lemma tx_commit_fuel:
  "fst (tx_commit n w t) \<noteq> Running \<Longrightarrow> tx_commit (n + k) w t = tx_commit n w t"
proof (induction k)
  case 0
  then show ?case by simp
next
  case (Suc k)
  then have eq: "tx_commit (n + k) w t = tx_commit n w t" by simp
  with Suc.prems have nr: "fst (tx_commit (n + k) w t) \<noteq> Running" by simp
  have "tx_commit (Suc (n + k)) w t = tx_commit (n + k) w t"
  proof (cases "write_set t = []")
    case True
    then show ?thesis by (simp add: tx_commit_def)
  next
    case False
    obtain q w1 t1 where cc: "commit_cas (n + k) w t = (q, w1, t1)"
      by (cases "commit_cas (n + k) w t")
    from nr tx_commit_unfold [OF False cc] have "q \<noteq> Running" by auto
    with cc have "fst (commit_cas (n + k) w t) \<noteq> Running" by simp
    from trans [OF commit_cas_Suc [OF this] cc]
    have "commit_cas (Suc (n + k)) w t = (q, w1, t1)" .
    from tx_commit_unfold [OF False this] tx_commit_unfold [OF False cc] show ?thesis by simp
  qed
  with eq show ?case by (simp only: add_Suc_right)
qed

section \<open>The commit of a writing transaction\<close>

text \<open>
  A run of the loop of \<^verbatim>\<open>tx_commit\<close> that is left by a successful compare-and-swap, or by
  a throw, consists of rounds, and rounds followed by a run that ends make a run that ends.
\<close>

lemma commit_cas_rounds:
  "commit_cas n w t = (Returns u, w', t') \<Longrightarrow>
   \<exists>w0. revalidated w t w0 t' \<and> cas_clock (rv t') (rv t' + 1) w0 = (True, w')"
proof (induction n arbitrary: w t)
  case 0
  then show ?case by simp
next
  case (Suc n)
  obtain b w1 where cas: "cas_clock (rv t) (rv t + 1) w = (b, w1)"
    by (cases "cas_clock (rv t) (rv t + 1) w")
  show ?case
  proof (cases b)
    case True
    with Suc.prems cas have "w' = w1" "t' = t" by simp_all
    with cas True have "revalidated w t w t' \<and> cas_clock (rv t') (rv t' + 1) w = (True, w')"
      by (simp add: revalidated.first)
    then show ?thesis by (rule exI)
  next
    case False
    obtain q w2 where tv: "tx_validate n w1 t = (q, w2)" by (cases "tx_validate n w1 t")
    show ?thesis
    proof (cases q)
      case (Returns x)
      with Suc.prems cas False tv have "commit_cas n w2 (t\<lparr>rv := x\<rparr>) = (Returns u, w', t')"
        by simp
      from Suc.IH [OF this] obtain w0
        where w0: "revalidated w2 (t\<lparr>rv := x\<rparr>) w0 t'"
          "cas_clock (rv t') (rv t' + 1) w0 = (True, w')" by blast
      from cas False have c: "cas_clock (rv t) (rv t + 1) w = (False, w1)" by simp
      from tv Returns have v: "tx_validate n w1 t = (Returns x, w2)" by simp
      have "revalidated w t w0 t'" using c v w0(1) by (rule revalidated.again)
      with w0(2) have "revalidated w t w0 t' \<and> cas_clock (rv t') (rv t' + 1) w0 = (True, w')"
        by simp
      then show ?thesis by (rule exI)
    qed (use Suc.prems cas False tv in auto)
  qed
qed

lemma commit_cas_throw_round:
  "commit_cas n w t = (Throws m, w', t') \<Longrightarrow>
   \<exists>w0 w1 k. revalidated w t w0 t' \<and> cas_clock (rv t') (rv t' + 1) w0 = (False, w1) \<and>
     tx_validate k w1 t' = (Throws m, w')"
proof (induction n arbitrary: w t)
  case 0
  then show ?case by simp
next
  case (Suc n)
  obtain b w1 where cas: "cas_clock (rv t) (rv t + 1) w = (b, w1)"
    by (cases "cas_clock (rv t) (rv t + 1) w")
  show ?case
  proof (cases b)
    case True
    with Suc.prems cas show ?thesis by simp
  next
    case False
    from cas False have c: "cas_clock (rv t) (rv t + 1) w = (False, w1)" by simp
    obtain q w2 where tv: "tx_validate n w1 t = (q, w2)" by (cases "tx_validate n w1 t")
    show ?thesis
    proof (cases q)
      case (Returns x)
      with Suc.prems c tv have "commit_cas n w2 (t\<lparr>rv := x\<rparr>) = (Throws m, w', t')"
        by simp
      from Suc.IH [OF this] obtain w0 w3 k
        where w0: "revalidated w2 (t\<lparr>rv := x\<rparr>) w0 t'"
          "cas_clock (rv t') (rv t' + 1) w0 = (False, w3)"
          "tx_validate k w3 t' = (Throws m, w')" by blast
      from tv Returns have v: "tx_validate n w1 t = (Returns x, w2)" by simp
      have "revalidated w t w0 t'" using c v w0(1) by (rule revalidated.again)
      with w0(2,3) show ?thesis by blast
    next
      case (Throws m')
      with Suc.prems c tv have e: "m' = m" "w2 = w'" "t' = t" by simp_all
      with tv Throws c have "revalidated w t w t' \<and>
          cas_clock (rv t') (rv t' + 1) w = (False, w1) \<and> tx_validate n w1 t' = (Throws m, w')"
        by (simp add: revalidated.first)
      then show ?thesis by blast
    qed (use Suc.prems c tv in auto)
  qed
qed

lemma revalidated_sets:
  "revalidated w t w0 t0 \<Longrightarrow> read_set t0 = read_set t \<and> write_set t0 = write_set t"
  by (induction rule: revalidated.induct) simp_all

lemma revalidated_commit_cas:
  "revalidated w t w0 t0 \<Longrightarrow> commit_cas k w0 t0 = (r, w', t') \<Longrightarrow> r \<noteq> Running \<Longrightarrow>
   \<exists>n. commit_cas n w t = (r, w', t')"
proof (induction arbitrary: k rule: revalidated.induct)
  case (first w t)
  then show ?case by blast
next
  case (again t w w1 n x w2 w0 t0)
  from again.IH [OF again.prems] obtain n' where
    cc: "commit_cas n' w2 (t\<lparr>rv := x\<rparr>) = (r, w', t')" by blast
  from again.hyps(2) have "fst (tx_validate n w1 t) \<noteq> Running" by simp
  from tx_validate_fuel [OF this, of n'] again.hyps(2)
  have tv: "tx_validate (n + n') w1 t = (Returns x, w2)" by simp
  from cc again.prems(2) have "fst (commit_cas n' w2 (t\<lparr>rv := x\<rparr>)) \<noteq> Running" by simp
  from commit_cas_fuel [OF this, of n] cc
  have "commit_cas (n' + n) w2 (t\<lparr>rv := x\<rparr>) = (r, w', t')" by simp
  then have cc': "commit_cas (n + n') w2 (t\<lparr>rv := x\<rparr>) = (r, w', t')"
    by (simp only: add.commute)
  from again.hyps(1) tv cc' have "commit_cas (Suc (n + n')) w t = (r, w', t')" by simp
  then show ?case by blast
qed

text \<open>
  C4 (as amended): \<^verbatim>\<open>tx_commit\<close> with a non-empty write set.

  When it returns, its loop has gone through some rounds (in each the compare-and-swap from
  \<^verbatim>\<open>rv\<close> to \<^verbatim>\<open>rv + 1\<close> failed and \<^verbatim>\<open>tx_validate\<close> returned the new \<^verbatim>\<open>rv\<close>), then the
  compare-and-swap from \<^verbatim>\<open>rv\<close> to \<^verbatim>\<open>rv + 1\<close> has succeeded, \<^verbatim>\<open>write_back\<close> has stored
  the write set, and \<^verbatim>\<open>rv + 2\<close> has been stored to the clock. Its accesses are, in this
  order: loads and failed attempts to move the clock from some value to the next; the
  successful compare-and-swap; one store for each pair of the write set; the store of
  \<^verbatim>\<open>rv + 2\<close> to the clock. The clock is then \<^verbatim>\<open>rv + 2\<close> in 32-bit arithmetic: two more
  than the value the compare-and-swap found, unless that value was \<open>2\<^sup>3\<^sup>2 - 2\<close>. A thread
  that runs alone finds in \<^verbatim>\<open>rv\<close> the clock it started from, and leaves the cells with all
  pairs of the write set stored.

  When it throws, its loop has gone through some rounds, the compare-and-swap has failed
  once more, and the call of \<^verbatim>\<open>tx_validate\<close> that followed has thrown what \<^verbatim>\<open>tx_commit\<close>
  throws.

  Conversely, after any rounds of the loop, a compare-and-swap that succeeds and a
  write-back that stays in range make \<^verbatim>\<open>tx_commit\<close> return, with \<^verbatim>\<open>rv + 2\<close> stored to
  the clock after the write-back; and a compare-and-swap that fails followed by a
  \<^verbatim>\<open>tx_validate\<close> that throws makes \<^verbatim>\<open>tx_commit\<close> throw the same.
\<close>

theorem tx_commit_writes_then_releases:
  assumes ws: "write_set t \<noteq> []"
  shows
    "(tx_commit n w t = (Returns u, w', t') \<longrightarrow>
        (\<exists>w0 w1 w2. revalidated w t w0 t' \<and>
            cas_clock (rv t') (rv t' + 1) w0 = (True, w1) \<and>
            write_back (write_set t) w1 = Some w2 \<and> w' = store_clock (rv t' + 2) w2) \<and>
        (\<exists>pre. list_all waiting pre \<and>
            trace w' = trace w @ pre @ CasClock (rv t') (rv t' + 1) True #
              map (\<lambda>(a, v). StoreValue a v) (write_set t) @ [StoreClock (rv t' + 2)]) \<and>
        global_clock (mem w') = rv t' + 2 \<and>
        (unat (rv t') < 4294967294 \<longrightarrow> unat (global_clock (mem w')) = unat (rv t') + 2) \<and>
        (others w = [] \<longrightarrow>
           rv t' = global_clock (mem w) \<and>
           accts (mem w') = accts (fold (\<lambda>(a, v). set_value a v) (write_set t) (mem w)))) \<and>
     (tx_commit n w t = (Throws m, wa, ta) \<longrightarrow>
        (\<exists>w0 w1 k. revalidated w t w0 ta \<and>
            cas_clock (rv ta) (rv ta + 1) w0 = (False, w1) \<and>
            tx_validate k w1 ta = (Throws m, wa))) \<and>
     (revalidated w t w0 t0 \<longrightarrow> cas_clock (rv t0) (rv t0 + 1) w0 = (True, w1) \<longrightarrow>
      write_back (write_set t) w1 = Some w2 \<longrightarrow>
        (\<exists>k. tx_commit k w t = (Returns (), store_clock (rv t0 + 2) w2, t0))) \<and>
     (revalidated w t w0 t0 \<longrightarrow> cas_clock (rv t0) (rv t0 + 1) w0 = (False, w3) \<longrightarrow>
      tx_validate j w3 t0 = (Throws m', w4) \<longrightarrow>
        (\<exists>k. tx_commit k w t = (Throws m', w4, t0)))"
proof (intro conjI impI)
  assume run: "tx_commit n w t = (Returns u, w', t')"
  obtain q wc tc where cc: "commit_cas n w t = (q, wc, tc)" by (cases "commit_cas n w t")
  from run tx_commit_unfold [OF ws cc]
  have "\<exists>w2. q = Returns () \<and> write_back (write_set tc) wc = Some w2 \<and>
          w' = store_clock (rv tc + 2) w2 \<and> t' = tc"
    by (cases q) (auto split: option.splits)
  then obtain w2 where q: "q = Returns ()" and wb: "write_back (write_set tc) wc = Some w2"
    and w': "w' = store_clock (rv tc + 2) w2" and t': "t' = tc"
    by blast
  from commit_cas_rounds [of n w t "()" wc tc] cc q obtain w0
    where w0: "revalidated w t w0 tc" "cas_clock (rv tc) (rv tc + 1) w0 = (True, wc)" by auto
  from commit_cas_sets [OF cc] wb have "write_back (write_set t) wc = Some w2" by simp
  with w0 w' t'
  have "revalidated w t w0 t' \<and> cas_clock (rv t') (rv t' + 1) w0 = (True, wc) \<and>
        write_back (write_set t) wc = Some w2 \<and> w' = store_clock (rv t' + 2) w2"
    by simp
  then show "\<exists>w0 w1 w2. revalidated w t w0 t' \<and>
            cas_clock (rv t') (rv t' + 1) w0 = (True, w1) \<and>
            write_back (write_set t) w1 = Some w2 \<and> w' = store_clock (rv t' + 2) w2"
    by blast
  note acc = tx_commit_accesses [OF ws run]
  from acc show "\<exists>pre. list_all waiting pre \<and>
            trace w' = trace w @ pre @ CasClock (rv t') (rv t' + 1) True #
              map (\<lambda>(a, v). StoreValue a v) (write_set t) @ [StoreClock (rv t' + 2)]"
    by (rule conjunct1)
  from acc show clk: "global_clock (mem w') = rv t' + 2" by simp
  show "unat (global_clock (mem w')) = unat (rv t') + 2" if "unat (rv t') < 4294967294"
    using that clk by (simp add: unat_plus_2)
  show "rv t' = global_clock (mem w)"
    "accts (mem w') = accts (fold (\<lambda>(a, v). set_value a v) (write_set t) (mem w))"
    if "others w = []"
    using acc that by simp_all
next
  assume run: "tx_commit n w t = (Throws m, wa, ta)"
  obtain q wc tc where cc: "commit_cas n w t = (q, wc, tc)" by (cases "commit_cas n w t")
  from run tx_commit_unfold [OF ws cc] have "q = Throws m \<and> wc = wa \<and> tc = ta"
    by (cases q) (auto split: option.splits)
  with cc have "commit_cas n w t = (Throws m, wa, ta)" by simp
  then show "\<exists>w0 w1 k. revalidated w t w0 ta \<and>
            cas_clock (rv ta) (rv ta + 1) w0 = (False, w1) \<and>
            tx_validate k w1 ta = (Throws m, wa)"
    by (rule commit_cas_throw_round)
next
  assume rounds: "revalidated w t w0 t0"
    and cas: "cas_clock (rv t0) (rv t0 + 1) w0 = (True, w1)"
    and wb: "write_back (write_set t) w1 = Some w2"
  from cas have "commit_cas (Suc 0) w0 t0 = (Returns (), w1, t0)" by simp
  from revalidated_commit_cas [OF rounds this] obtain k
    where cc: "commit_cas k w t = (Returns (), w1, t0)" by blast
  from revalidated_sets [OF rounds] wb have "write_back (write_set t0) w1 = Some w2" by simp
  with tx_commit_unfold [OF ws cc]
  have "tx_commit k w t = (Returns (), store_clock (rv t0 + 2) w2, t0)" by simp
  then show "\<exists>k. tx_commit k w t = (Returns (), store_clock (rv t0 + 2) w2, t0)" by (rule exI)
next
  assume rounds: "revalidated w t w0 t0"
    and cas: "cas_clock (rv t0) (rv t0 + 1) w0 = (False, w3)"
    and tv: "tx_validate j w3 t0 = (Throws m', w4)"
  from cas tv have "commit_cas (Suc j) w0 t0 = (Throws m', w4, t0)" by simp
  from revalidated_commit_cas [OF rounds this] obtain k
    where cc: "commit_cas k w t = (Throws m', w4, t0)" by blast
  from tx_commit_unfold [OF ws cc]
  have "tx_commit k w t = (Throws m', w4, t0)" by simp
  then show "\<exists>k. tx_commit k w t = (Throws m', w4, t0)" by (rule exI)
qed

theorem tx_commit_writes_then_releases_witness:
  "tx_commit (Suc (Suc 0))
     \<lparr>mem = \<lparr>accts = [\<lparr>addr = 0, val = 1000\<rparr>, \<lparr>addr = 1, val = 1000\<rparr>], global_clock = 2\<rparr>,
      others = [], trace = []\<rparr>
     \<lparr>read_set = [\<lparr>addr = 0, val = 1000\<rparr>, \<lparr>addr = 1, val = 1000\<rparr>],
      write_set = [(0, 950), (1, 1050)], rv = 0\<rparr>
   = (Returns (),
      \<lparr>mem = \<lparr>accts = [\<lparr>addr = 0, val = 950\<rparr>, \<lparr>addr = 1, val = 1050\<rparr>], global_clock = 4\<rparr>,
       others = [],
       trace = [CasClock 0 1 False, LoadClock 2, LoadValue 0 1000, LoadClock 2,
                CasClock 2 3 True, StoreValue 0 950, StoreValue 1 1050, StoreClock 4]\<rparr>,
      \<lparr>read_set = [\<lparr>addr = 0, val = 1000\<rparr>, \<lparr>addr = 1, val = 1000\<rparr>],
       write_set = [(0, 950), (1, 1050)], rv = 2\<rparr>) \<and>
   unat (4 :: 32 word) = unat (2 :: 32 word) + 2 \<and>
   (\<exists>w0 w1 w2.
      revalidated
        \<lparr>mem = \<lparr>accts = [\<lparr>addr = 0, val = 1000\<rparr>, \<lparr>addr = 1, val = 1000\<rparr>], global_clock = 2\<rparr>,
         others = [], trace = []\<rparr>
        \<lparr>read_set = [\<lparr>addr = 0, val = 1000\<rparr>, \<lparr>addr = 1, val = 1000\<rparr>],
         write_set = [(0, 950), (1, 1050)], rv = 0\<rparr>
        w0
        \<lparr>read_set = [\<lparr>addr = 0, val = 1000\<rparr>, \<lparr>addr = 1, val = 1000\<rparr>],
         write_set = [(0, 950), (1, 1050)], rv = 2\<rparr> \<and>
      cas_clock 2 3 w0 = (True, w1) \<and>
      write_back [(0, 950), (1, 1050)] w1 = Some w2 \<and>
      \<lparr>mem = \<lparr>accts = [\<lparr>addr = 0, val = 950\<rparr>, \<lparr>addr = 1, val = 1050\<rparr>], global_clock = 4\<rparr>,
       others = [],
       trace = [CasClock 0 1 False, LoadClock 2, LoadValue 0 1000, LoadClock 2,
                CasClock 2 3 True, StoreValue 0 950, StoreValue 1 1050, StoreClock 4]\<rparr>
        = store_clock 4 w2) \<and>
   revalidated
     \<lparr>mem = \<lparr>accts = [\<lparr>addr = 0, val = 1000\<rparr>, \<lparr>addr = 1, val = 1000\<rparr>], global_clock = 2\<rparr>,
      others = [], trace = []\<rparr>
     \<lparr>read_set = [\<lparr>addr = 0, val = 1000\<rparr>, \<lparr>addr = 1, val = 1000\<rparr>],
      write_set = [(0, 950), (1, 1050)], rv = 0\<rparr>
     \<lparr>mem = \<lparr>accts = [\<lparr>addr = 0, val = 1000\<rparr>, \<lparr>addr = 1, val = 1000\<rparr>], global_clock = 2\<rparr>,
      others = [],
      trace = [CasClock 0 1 False, LoadClock 2, LoadValue 0 1000, LoadClock 2]\<rparr>
     \<lparr>read_set = [\<lparr>addr = 0, val = 1000\<rparr>, \<lparr>addr = 1, val = 1000\<rparr>],
      write_set = [(0, 950), (1, 1050)], rv = 2\<rparr> \<and>
   (\<exists>k. tx_commit k
      \<lparr>mem = \<lparr>accts = [\<lparr>addr = 0, val = 1000\<rparr>, \<lparr>addr = 1, val = 1000\<rparr>], global_clock = 2\<rparr>,
       others = [], trace = []\<rparr>
      \<lparr>read_set = [\<lparr>addr = 0, val = 1000\<rparr>, \<lparr>addr = 1, val = 1000\<rparr>],
       write_set = [(0, 950), (1, 1050)], rv = 0\<rparr>
    = (Returns (),
       \<lparr>mem = \<lparr>accts = [\<lparr>addr = 0, val = 950\<rparr>, \<lparr>addr = 1, val = 1050\<rparr>], global_clock = 4\<rparr>,
        others = [],
        trace = [CasClock 0 1 False, LoadClock 2, LoadValue 0 1000, LoadClock 2,
                 CasClock 2 3 True, StoreValue 0 950, StoreValue 1 1050, StoreClock 4]\<rparr>,
       \<lparr>read_set = [\<lparr>addr = 0, val = 1000\<rparr>, \<lparr>addr = 1, val = 1000\<rparr>],
        write_set = [(0, 950), (1, 1050)], rv = 2\<rparr>)) \<and>
   tx_commit (Suc (Suc 0))
     \<lparr>mem = \<lparr>accts = [\<lparr>addr = 0, val = 900\<rparr>, \<lparr>addr = 1, val = 1000\<rparr>], global_clock = 2\<rparr>,
      others = [], trace = []\<rparr>
     \<lparr>read_set = [\<lparr>addr = 0, val = 1000\<rparr>], write_set = [(0, 950), (1, 1050)], rv = 0\<rparr>
   = (Throws ''Transaction ABORTED'',
      \<lparr>mem = \<lparr>accts = [\<lparr>addr = 0, val = 900\<rparr>, \<lparr>addr = 1, val = 1000\<rparr>], global_clock = 2\<rparr>,
       others = [], trace = [CasClock 0 1 False, LoadClock 2, LoadValue 0 900]\<rparr>,
      \<lparr>read_set = [\<lparr>addr = 0, val = 1000\<rparr>], write_set = [(0, 950), (1, 1050)], rv = 0\<rparr>) \<and>
   (\<exists>w0 w1 k.
      revalidated
        \<lparr>mem = \<lparr>accts = [\<lparr>addr = 0, val = 900\<rparr>, \<lparr>addr = 1, val = 1000\<rparr>], global_clock = 2\<rparr>,
         others = [], trace = []\<rparr>
        \<lparr>read_set = [\<lparr>addr = 0, val = 1000\<rparr>], write_set = [(0, 950), (1, 1050)], rv = 0\<rparr>
        w0
        \<lparr>read_set = [\<lparr>addr = 0, val = 1000\<rparr>], write_set = [(0, 950), (1, 1050)], rv = 0\<rparr> \<and>
      cas_clock 0 1 w0 = (False, w1) \<and>
      tx_validate k w1
        \<lparr>read_set = [\<lparr>addr = 0, val = 1000\<rparr>], write_set = [(0, 950), (1, 1050)], rv = 0\<rparr>
      = (Throws ''Transaction ABORTED'',
         \<lparr>mem = \<lparr>accts = [\<lparr>addr = 0, val = 900\<rparr>, \<lparr>addr = 1, val = 1000\<rparr>], global_clock = 2\<rparr>,
          others = [], trace = [CasClock 0 1 False, LoadClock 2, LoadValue 0 900]\<rparr>)) \<and>
   (\<exists>k. tx_commit k
      \<lparr>mem = \<lparr>accts = [\<lparr>addr = 0, val = 900\<rparr>, \<lparr>addr = 1, val = 1000\<rparr>], global_clock = 2\<rparr>,
       others = [], trace = []\<rparr>
      \<lparr>read_set = [\<lparr>addr = 0, val = 1000\<rparr>], write_set = [(0, 950), (1, 1050)], rv = 0\<rparr>
    = (Throws ''Transaction ABORTED'',
       \<lparr>mem = \<lparr>accts = [\<lparr>addr = 0, val = 900\<rparr>, \<lparr>addr = 1, val = 1000\<rparr>], global_clock = 2\<rparr>,
        others = [], trace = [CasClock 0 1 False, LoadClock 2, LoadValue 0 900]\<rparr>,
       \<lparr>read_set = [\<lparr>addr = 0, val = 1000\<rparr>], write_set = [(0, 950), (1, 1050)], rv = 0\<rparr>))"
  (is "tx_commit ?n ?W ?T = (Returns (), ?W', ?T') \<and> ?U \<and> ?E1 \<and>
       revalidated ?W ?T ?Wr ?T' \<and> ?K1 \<and>
       tx_commit ?n ?V ?S = (Throws ?m, ?V', ?S) \<and> ?E2 \<and> ?K2")
proof -
  have ws: "write_set ?T \<noteq> []" "write_set ?S \<noteq> []" by simp_all
  have run1: "tx_commit ?n ?W ?T = (Returns (), ?W', ?T')" by (simp add: run_defs)
  have run2: "tx_commit ?n ?V ?S = (Throws ?m, ?V', ?S)" by (simp add: run_defs)
  note thm1 = tx_commit_writes_then_releases
    [OF ws(1), where n = ?n and w = ?W and u = "()" and w' = ?W' and t' = ?T']
  note thm2 = tx_commit_writes_then_releases
    [OF ws(2), where n = ?n and w = ?V and m = ?m and wa = ?V' and ta = ?S]
  from thm1 run1
  have "unat (rv ?T') < 4294967294 \<longrightarrow> unat (global_clock (mem ?W')) = unat (rv ?T') + 2"
    by blast
  then have u: ?U by simp
  from thm1 run1
  have "\<exists>w0 w1 w2. revalidated ?W ?T w0 ?T' \<and>
          cas_clock (rv ?T') (rv ?T' + 1) w0 = (True, w1) \<and>
          write_back (write_set ?T) w1 = Some w2 \<and> ?W' = store_clock (rv ?T' + 2) w2"
    by blast
  then have e1: ?E1 by simp
  have cas0: "cas_clock (rv ?T) (rv ?T + 1) ?W =
      (False, ?W\<lparr>trace := [CasClock 0 1 False]\<rparr>)"
    by (simp add: run_defs)
  have val0: "tx_validate (Suc 0) (?W\<lparr>trace := [CasClock 0 1 False]\<rparr>) ?T = (Returns 2, ?Wr)"
    by (simp add: run_defs)
  have "revalidated ?Wr (?T\<lparr>rv := 2\<rparr>) ?Wr (?T\<lparr>rv := 2\<rparr>)" by (rule revalidated.first)
  with cas0 val0 have "revalidated ?W (?T) ?Wr (?T\<lparr>rv := 2\<rparr>)" by (rule revalidated.again)
  then have r: "revalidated ?W ?T ?Wr ?T'" by simp
  have cas1: "cas_clock (rv ?T') (rv ?T' + 1) ?Wr =
      (True, \<lparr>mem = \<lparr>accts = [\<lparr>addr = 0, val = 1000\<rparr>, \<lparr>addr = 1, val = 1000\<rparr>],
                      global_clock = 3\<rparr>,
              others = [],
              trace = [CasClock 0 1 False, LoadClock 2, LoadValue 0 1000, LoadClock 2,
                       CasClock 2 3 True]\<rparr>)"
    (is "_ = (True, ?Wc)")
    by (simp add: run_defs)
  have wb1: "write_back (write_set ?T) ?Wc =
      Some \<lparr>mem = \<lparr>accts = [\<lparr>addr = 0, val = 950\<rparr>, \<lparr>addr = 1, val = 1050\<rparr>],
                    global_clock = 3\<rparr>,
            others = [],
            trace = [CasClock 0 1 False, LoadClock 2, LoadValue 0 1000, LoadClock 2,
                     CasClock 2 3 True, StoreValue 0 950, StoreValue 1 1050]\<rparr>"
    (is "_ = Some ?Wb")
    by (simp add: run_defs)
  from tx_commit_writes_then_releases [OF ws(1), where w = ?W and ?w0.0 = ?Wr and ?t0.0 = ?T' and ?w1.0 = ?Wc
      and ?w2.0 = ?Wb] r cas1 wb1
  have "\<exists>k. tx_commit k ?W ?T = (Returns (), store_clock (rv ?T' + 2) ?Wb, ?T')" by blast
  then have k1: ?K1 by (simp add: run_defs)
  from thm2 run2
  have "\<exists>w0 w1 k. revalidated ?V ?S w0 ?S \<and>
          cas_clock (rv ?S) (rv ?S + 1) w0 = (False, w1) \<and>
          tx_validate k w1 ?S = (Throws ?m, ?V')"
    by blast
  then have e2: ?E2 by simp
  have cas2: "cas_clock (rv ?S) (rv ?S + 1) ?V = (False, ?V\<lparr>trace := [CasClock 0 1 False]\<rparr>)"
    by (simp add: run_defs)
  have val2: "tx_validate (Suc 0) (?V\<lparr>trace := [CasClock 0 1 False]\<rparr>) ?S = (Throws ?m, ?V')"
    by (simp add: run_defs)
  have "revalidated ?V ?S ?V ?S" by (rule revalidated.first)
  with tx_commit_writes_then_releases [OF ws(2), where w = ?V and ?w0.0 = ?V and ?t0.0 = ?S
      and ?w3.0 = "?V\<lparr>trace := [CasClock 0 1 False]\<rparr>" and j = "Suc 0" and m' = ?m
      and ?w4.0 = ?V'] cas2 val2
  have k2: ?K2 by blast
  from run1 u e1 r k1 run2 e2 k2 show ?thesis by blast
qed

text \<open>
  C4 as stated fails where the clock wraps around: on the bank of \<^verbatim>\<open>main\<close>, a commit of
  a transfer from account 0 to account 1 that finds the clock at \<open>2\<^sup>3\<^sup>2 - 2 = 4294967294\<close>
  leaves it at 0.
\<close>

theorem tx_commit_clock_wraps:
  "tx_commit (Suc 0)
     \<lparr>mem = \<lparr>accts = init_accts NUM_ACCTS, global_clock = 4294967294\<rparr>,
      others = [], trace = []\<rparr>
     \<lparr>read_set = [\<lparr>addr = 0, val = 1000\<rparr>, \<lparr>addr = 1, val = 1000\<rparr>],
      write_set = [(0, 950), (1, 1050)], rv = 4294967294\<rparr>
   = (Returns (),
      \<lparr>mem = \<lparr>accts = (init_accts NUM_ACCTS)
                 [0 := \<lparr>addr = 0, val = 950\<rparr>, 1 := \<lparr>addr = 1, val = 1050\<rparr>],
              global_clock = 0\<rparr>,
       others = [],
       trace = [CasClock 4294967294 4294967295 True, StoreValue 0 950, StoreValue 1 1050,
                StoreClock 0]\<rparr>,
      \<lparr>read_set = [\<lparr>addr = 0, val = 1000\<rparr>, \<lparr>addr = 1, val = 1000\<rparr>],
       write_set = [(0, 950), (1, 1050)], rv = 4294967294\<rparr>)"
proof -
  let ?cs = "init_accts NUM_ACCTS"
  have "length ?cs = 1000000" by (simp add: length_init_accts NUM_ACCTS_def)
  then have l: "?cs \<noteq> []" "Suc 0 < length ?cs" by auto
  have v: "?cs ! 0 = \<lparr>addr = 0, val = 1000\<rparr>" "?cs ! Suc 0 = \<lparr>addr = 1, val = 1000\<rparr>"
    by (simp_all add: nth_init_accts NUM_ACCTS_def)
  show ?thesis
    using l v by (simp add: run_defs)
qed

section \<open>All or nothing\<close>

lemma stores_append: "stores (xs @ ys) = stores xs @ stores ys"
  by (induction xs rule: stores.induct) simp_all

lemma stores_waiting: "list_all waiting evs \<Longrightarrow> stores evs = []"
  by (induction evs rule: stores.induct) simp_all

lemma stores_write_back: "stores (map (\<lambda>(a, v). StoreValue a v) xs) = xs"
  by (induction xs) auto

lemma waits_writes_nothing: "waits w w' \<Longrightarrow> writes_nothing w w'"
  by (auto simp: waits_def writes_nothing_def stores_append stores_waiting)

lemma reads_only_writes_nothing: "reads_only w w' \<Longrightarrow> writes_nothing w w'"
  by (rule waits_writes_nothing [OF reads_only_waits])

lemma tx_commit_waits:
  assumes "tx_commit n w t = (r, w', t')" and "r = Throws m \<or> r = Running"
  shows "waits w w'"
proof (cases "write_set t = []")
  case True
  with assms show ?thesis by (auto simp: tx_commit_def)
next
  case False
  obtain q w1 t1 where cc: "commit_cas n w t = (q, w1, t1)" by (cases "commit_cas n w t")
  have eq: "(case q of
               Returns u \<Rightarrow>
                 (case write_back (write_set t1) w1 of
                    None \<Rightarrow> (Undefined, w1, t1)
                  | Some w2 \<Rightarrow> (Returns (), store_clock (rv t1 + 2) w2, t1))
             | Throws m \<Rightarrow> (Throws m, w1, t1)
             | Undefined \<Rightarrow> (Undefined, w1, t1)
             | Running \<Rightarrow> (Running, w1, t1)) = (r, w', t')"
    using assms(1) tx_commit_unfold [OF False cc] by simp
  have q: "\<forall>u. q \<noteq> Returns u" and w1: "w1 = w'"
    using eq assms(2) by (cases q; auto split: option.splits)+
  from commit_cas_waits [OF cc q] w1 show ?thesis by simp
qed

lemma transfers_reads: "transfers j n r1 r2 w t = (r, w', t') \<Longrightarrow> reads_only w w'"
proof (induction j arbitrary: w t)
  case 0
  then show ?case by (simp add: reads_only_refl)
next
  case (Suc j)
  obtain q1 w1 t1 where rd1: "tx_read n r1 w t = (q1, w1, t1)" by (cases "tx_read n r1 w t")
  have s1: "reads_only w w1" by (rule tx_read_reads [OF rd1])
  obtain q2 w2 t2 where rd2: "tx_read n r2 w1 t1 = (q2, w2, t2)" by (cases "tx_read n r2 w1 t1")
  have s2: "reads_only w w2" using s1 tx_read_reads [OF rd2] by (rule reads_only_trans)
  show ?case
  proof (cases q1)
    case (Returns a1)
    show ?thesis
    proof (cases "a1 <s TRFR_AMT")
      case True
      with Suc.prems rd1 Returns s1 show ?thesis by simp
    next
      case False
      show ?thesis
      proof (cases q2)
        case r2: (Returns a2)
        show ?thesis
        proof (cases "2147483647 < sint a2 + sint TRFR_AMT")
          case True
          with Suc.prems rd1 Returns False rd2 r2 s2 show ?thesis by simp
        next
          case ok: False
          with Suc.prems rd1 Returns False rd2 r2
          have "transfers j n r1 r2 w2
                  (tx_write r2 (a2 + TRFR_AMT) (tx_write r1 (a1 - TRFR_AMT) t2)) = (r, w', t')"
            by simp
          from s2 Suc.IH [OF this] show ?thesis by (rule reads_only_trans)
        qed
      qed (use Suc.prems rd1 Returns False rd2 s2 in auto)
    qed
  qed (use Suc.prems rd1 s1 in auto)
qed

lemma th_run_body_reads: "th_run_body n r1 r2 w t = (r, w', t') \<Longrightarrow> reads_only w w'"
proof -
  assume a: "th_run_body n r1 r2 w t = (r, w', t')"
  obtain q w1 t1 where b: "tx_begin n w t = (q, w1, t1)" by (cases "tx_begin n w t")
  have s1: "reads_only w w1" by (rule tx_begin_reads [OF b])
  show ?thesis
  proof (cases q)
    case (Returns u)
    with a b have "transfers 10 n r1 r2 w1 t1 = (r, w', t')" by (simp add: th_run_body_def)
    from s1 transfers_reads [OF this] show ?thesis by (rule reads_only_trans)
  qed (use a b s1 in \<open>auto simp: th_run_body_def\<close>)
qed

lemma writes_nothing_trans: "reads_only w w1 \<Longrightarrow> waits w1 w2 \<Longrightarrow> writes_nothing w w2"
  by (rule waits_writes_nothing [OF waits_trans [OF reads_only_waits]])

lemma th_run_attempt_aborted:
  assumes "th_run_attempt n r1 r2 w t = (Returns True, w', t')"
  shows "writes_nothing w w'"
proof -
  obtain q w1 t1 where b: "th_run_body n r1 r2 w t = (q, w1, t1)"
    by (cases "th_run_body n r1 r2 w t")
  have s1: "reads_only w w1" by (rule th_run_body_reads [OF b])
  obtain q2 w2 t2 where c: "tx_commit n w1 t1 = (q2, w2, t2)" by (cases "tx_commit n w1 t1")
  show ?thesis
  proof (cases q)
    case (Returns u)
    with assms b c have "\<exists>m. q2 = Throws m" and "w2 = w'"
      by (cases q2; simp add: th_run_attempt_def)+
    with tx_commit_waits [OF c] have "waits w1 w'" by auto
    with s1 show ?thesis by (rule writes_nothing_trans)
  next
    case (Throws m)
    with assms b have "w1 = w'" by (simp add: th_run_attempt_def)
    with s1 show ?thesis by (simp add: reads_only_writes_nothing)
  qed (use assms b in \<open>auto simp: th_run_attempt_def\<close>)
qed

lemma tx_commit_stores:
  assumes "tx_commit n w t = (Returns u, w', t')"
  shows "stores (trace w') = stores (trace w) @ write_set t \<and>
         (others w = [] \<longrightarrow>
            accts (mem w') = accts (fold (\<lambda>(a, v). set_value a v) (write_set t) (mem w)))"
proof (cases "write_set t = []")
  case True
  with assms show ?thesis by (simp add: tx_commit_def)
next
  case False
  from tx_commit_accesses [OF False assms] obtain pre
    where "list_all waiting pre"
      and "trace w' = trace w @ pre @ CasClock (rv t') (rv t' + 1) True #
              map (\<lambda>(a, v). StoreValue a v) (write_set t) @ [StoreClock (rv t' + 2)]"
      and "others w = [] \<longrightarrow>
             accts (mem w') = accts (fold (\<lambda>(a, v). set_value a v) (write_set t) (mem w))"
    by blast
  then show ?thesis by (simp add: stores_append stores_waiting stores_write_back)
qed

subsection \<open>The cells after the write-back\<close>

lemma in_range_index_inj:
  "in_range a cs \<Longrightarrow> in_range b cs \<Longrightarrow> nat (sint a) = nat (sint b) \<Longrightarrow> a = b"
proof -
  assume "in_range a cs" "in_range b cs" "nat (sint a) = nat (sint b)"
  then have "0 \<le> sint a" "0 \<le> sint b" "nat (sint a) = nat (sint b)"
    by (simp_all add: in_range_def)
  then have "sint a = sint b" by arith
  then show "a = b" by (rule signed_word_eqI)
qed

lemma length_set_value: "length (accts (set_value a v s)) = length (accts s)"
  by (simp add: set_value_def)

lemma in_range_set_value: "in_range b (accts (set_value a v s)) = in_range b (accts s)"
  by (simp add: in_range_def length_set_value)

lemma nth_set_value_same:
  "in_range a (accts s) \<Longrightarrow>
   accts (set_value a v s) ! nat (sint a) = (accts s ! nat (sint a))\<lparr>val := v\<rparr>"
  by (simp add: set_value_def in_range_def)

lemma nth_set_value_other: "i \<noteq> nat (sint a) \<Longrightarrow> accts (set_value a v s) ! i = accts s ! i"
  by (simp add: set_value_def)

lemma fold_set_value_cells:
  assumes "distinct (map fst xs)" and "\<forall>(a, v) \<in> set xs. in_range a (accts s)"
  shows "length (accts (fold (\<lambda>(a, v). set_value a v) xs s)) = length (accts s) \<and>
         (\<forall>(a, v) \<in> set xs.
            accts (fold (\<lambda>(a, v). set_value a v) xs s) ! nat (sint a) =
              (accts s ! nat (sint a))\<lparr>val := v\<rparr>) \<and>
         (\<forall>i. i \<notin> (\<lambda>(a, v). nat (sint a)) ` set xs \<longrightarrow>
            accts (fold (\<lambda>(a, v). set_value a v) xs s) ! i = accts s ! i)"
  using assms
proof (induction xs arbitrary: s)
  case Nil
  then show ?case by simp
next
  case (Cons x xs)
  obtain a v where x: "x = (a, v)" by (cases x)
  let ?s1 = "set_value a v s"
  let ?F = "fold (\<lambda>(a, v). set_value a v) xs ?s1"
  from Cons.prems x have d: "distinct (map fst xs)" and fresh: "a \<notin> fst ` set xs"
    and ra: "in_range a (accts s)" and rs: "\<forall>(b, u) \<in> set xs. in_range b (accts s)"
    by auto
  from rs have rs1: "\<forall>(b, u) \<in> set xs. in_range b (accts ?s1)"
    by (simp add: in_range_set_value)
  note ih = Cons.IH [OF d rs1]
  have other: "nat (sint b) \<noteq> nat (sint a)" if "(b, u) \<in> set xs" for b u
  proof
    assume "nat (sint b) = nat (sint a)"
    with rs that ra have "b = a" by (auto dest: in_range_index_inj)
    with that fresh show False by force
  qed
  have len: "length (accts ?F) = length (accts s)"
    using ih by (simp add: length_set_value)
  have head: "accts ?F ! nat (sint a) = (accts s ! nat (sint a))\<lparr>val := v\<rparr>"
  proof -
    have "nat (sint a) \<notin> (\<lambda>(a, v). nat (sint a)) ` set xs" using other by force
    with ih have "accts ?F ! nat (sint a) = accts ?s1 ! nat (sint a)" by blast
    with ra show ?thesis by (simp add: nth_set_value_same)
  qed
  have tail: "accts ?F ! nat (sint b) = (accts s ! nat (sint b))\<lparr>val := u\<rparr>"
    if "(b, u) \<in> set xs" for b u
  proof -
    from ih that have "accts ?F ! nat (sint b) = (accts ?s1 ! nat (sint b))\<lparr>val := u\<rparr>"
      by blast
    with other [OF that] show ?thesis by (simp add: nth_set_value_other)
  qed
  have rest: "accts ?F ! i = accts s ! i"
    if "i \<notin> (\<lambda>(a, v). nat (sint a)) ` set (x # xs)" for i
  proof -
    from that x have "i \<noteq> nat (sint a)" "i \<notin> (\<lambda>(a, v). nat (sint a)) ` set xs" by auto
    with ih show ?thesis by (simp add: nth_set_value_other)
  qed
  from len head tail rest x show ?case by auto
qed

lemma store_value_in_range:
  "store_value a v w = Some w' \<Longrightarrow> others w = [] \<Longrightarrow> in_range a (accts (mem w))"
  by (auto simp: store_value_def Let_def interfere_alone split: if_splits)

lemma write_back_in_range:
  "write_back xs w = Some w' \<Longrightarrow> others w = [] \<Longrightarrow>
   \<forall>(a, v) \<in> set xs. in_range a (accts (mem w))"
proof (induction xs arbitrary: w)
  case Nil
  then show ?case by simp
next
  case (Cons x xs)
  obtain a v where x: "x = (a, v)" by (cases x)
  from Cons.prems x obtain w1 where sv: "store_value a v w = Some w1"
    and wb: "write_back xs w1 = Some w'"
    by (auto split: option.splits)
  from store_value_trace [OF sv] Cons.prems(2)
  have w1: "others w1 = []" "mem w1 = set_value a v (mem w)" by simp_all
  from Cons.IH [OF wb w1(1)] w1(2)
  have "\<forall>(b, u) \<in> set xs. in_range b (accts (mem w))" by (simp add: in_range_set_value)
  with store_value_in_range [OF sv Cons.prems(2)] x show ?case by simp
qed

text \<open>The keys of the write set stay distinct.\<close>

lemma distinct_emplace: "distinct (map fst m) \<Longrightarrow> distinct (map fst (emplace k v m))"
  by (auto simp: emplace_def map_of_eq_None_iff split: option.splits)

lemma tx_write_distinct:
  "distinct (map fst (write_set t)) \<Longrightarrow> distinct (map fst (write_set (tx_write a v t)))"
  by (simp add: tx_write_def distinct_emplace)

lemma between_calls_distinct: "between_calls t \<Longrightarrow> distinct (map fst (write_set t))"
proof (induction rule: between_calls.induct)
  case start
  show ?case by (simp add: tx_init_def)
next
  case (begun t n w u w' t')
  have "write_set t2 = []" if "begin_spin k w1 t1 = (r, w2, t2)" "write_set t1 = []"
    for k w1 t1 r w2 t2
    using that by (induction k arbitrary: w1 t1) (auto split: prod.splits if_splits)
  with begun.hyps(2) show ?case by (auto simp: tx_begin_def)
next
  case (written t a v)
  then show ?case by (simp add: tx_write_distinct)
next
  case (read t n a w x w' t')
  have "write_set t2 = write_set t1" if "read_loop k a v w1 t1 = (r, w2, t2)"
    for k v w1 t1 r w2 t2
    using that
    by (induction k arbitrary: v w1 t1)
      (auto split: prod.splits if_splits outcome.splits option.splits)
  with read show ?case by (auto simp: tx_read_def split: option.splits)
next
  case (read_aborted t n a w m w' t')
  have "write_set t2 = write_set t1" if "read_loop k a v w1 t1 = (r, w2, t2)"
    for k v w1 t1 r w2 t2
    using that
    by (induction k arbitrary: v w1 t1)
      (auto split: prod.splits if_splits outcome.splits option.splits)
  with read_aborted show ?case by (auto simp: tx_read_def split: option.splits)
next
  case (committed t n w u w' t')
  show ?case
  proof (cases "write_set t = []")
    case True
    with committed show ?thesis by (simp add: tx_commit_def)
  next
    case False
    from tx_commit_returns [OF False committed.hyps(2)] committed.IH show ?thesis by auto
  qed
next
  case (commit_aborted t n w m w' t')
  show ?case
  proof (cases "write_set t = []")
    case True
    with commit_aborted show ?thesis by (simp add: tx_commit_def)
  next
    case False
    obtain q w1 t1 where cc: "commit_cas n w t = (q, w1, t1)" by (cases "commit_cas n w t")
    from commit_aborted.hyps(2) tx_commit_unfold [OF False cc] have "t' = t1"
      by (cases q) (auto split: option.splits)
    with commit_cas_sets [OF cc] commit_aborted.IH show ?thesis by simp
  qed
qed

lemma tx_commit_cells:
  assumes run: "tx_commit n w t = (Returns u, w', t')" and alone: "others w = []"
    and d: "distinct (map fst (write_set t))"
  shows "length (accts (mem w')) = length (accts (mem w)) \<and>
         (\<forall>(a, v) \<in> set (write_set t).
            accts (mem w') ! nat (sint a) = (accts (mem w) ! nat (sint a))\<lparr>val := v\<rparr>) \<and>
         (\<forall>i. i \<notin> (\<lambda>(a, v). nat (sint a)) ` set (write_set t) \<longrightarrow>
            accts (mem w') ! i = accts (mem w) ! i)"
proof (cases "write_set t = []")
  case True
  with run show ?thesis by (simp add: tx_commit_def)
next
  case False
  from tx_commit_returns [OF False run] obtain w0 w1 w2
    where wt: "waits w w0" and cas: "cas_clock (rv t') (rv t' + 1) w0 = (True, w1)"
      and wb: "write_back (write_set t) w1 = Some w2" and w': "w' = store_clock (rv t' + 2) w2"
    by blast
  from waits_alone [OF wt alone] have m0: "mem w0 = mem w" "others w0 = []" by simp_all
  with cas_clock_succeeds [OF cas]
  have m1: "others w1 = []" "accts (mem w1) = accts (mem w)" by simp_all
  from write_back_trace [OF wb] m1(1)
  have m2: "others w2 = []" "mem w2 = fold (\<lambda>(a, v). set_value a v) (write_set t) (mem w1)"
    by simp_all
  from store_clock_trace [of "rv t' + 2" w2] m2(1) w'
  have m3: "accts (mem w') = accts (mem w2)" by simp
  from write_back_in_range [OF wb m1(1)]
  have "\<forall>(a, v) \<in> set (write_set t). in_range a (accts (mem w1))" .
  from fold_set_value_cells [OF d this] m1(2) m2(2) m3 show ?thesis by simp
qed

text \<open>
  C6: all or nothing. \<^verbatim>\<open>tx_begin\<close>, \<^verbatim>\<open>tx_validate\<close> and \<^verbatim>\<open>tx_read\<close> store to no cell,
  however they end, and neither does a \<^verbatim>\<open>tx_commit\<close> that throws or is still waiting
  (\<^verbatim>\<open>tx_write\<close> has no access to the world at all). A \<^verbatim>\<open>tx_commit\<close> that returns has
  stored exactly the pairs of the write set; if the thread runs alone the cells are then the
  old cells with every pair written: as the keys of the write set are distinct, the cell of
  each pair holds the value of the pair and every other cell is what it was. An attempt of \<^verbatim>\<open>th_run\<close> that ends in the
  \<^verbatim>\<open>catch\<close> clause has stored to no cell since its \<^verbatim>\<open>tx_begin\<close>.
\<close>

theorem abort_writes_nothing:
  "(tx_begin n w t = (rb, wb, tb) \<longrightarrow> writes_nothing w wb) \<and>
   (tx_validate n w t = (rv', wv) \<longrightarrow> writes_nothing w wv) \<and>
   (tx_read n a w t = (rr, wr, tr) \<longrightarrow> writes_nothing w wr) \<and>
   (tx_commit n w t = (Throws m, wc, tc) \<longrightarrow> writes_nothing w wc) \<and>
   (tx_commit n w t = (Running, wc', tc') \<longrightarrow> writes_nothing w wc') \<and>
   (tx_commit n w t = (Returns u, wd, td) \<longrightarrow>
      stores (trace wd) = stores (trace w) @ write_set t \<and>
      (others w = [] \<longrightarrow>
         accts (mem wd) = accts (fold (\<lambda>(a, v). set_value a v) (write_set t) (mem w)) \<and>
         (distinct (map fst (write_set t)) \<longrightarrow>
            length (accts (mem wd)) = length (accts (mem w)) \<and>
            (\<forall>(a, v) \<in> set (write_set t).
               accts (mem wd) ! nat (sint a) = (accts (mem w) ! nat (sint a))\<lparr>val := v\<rparr>) \<and>
            (\<forall>i. i \<notin> (\<lambda>(a, v). nat (sint a)) ` set (write_set t) \<longrightarrow>
               accts (mem wd) ! i = accts (mem w) ! i)))) \<and>
   (th_run_attempt n r1 r2 w t = (Returns True, wa, ta) \<longrightarrow> writes_nothing w wa)"
proof (intro conjI impI)
  show "writes_nothing w wb" if "tx_begin n w t = (rb, wb, tb)"
    using that by (rule reads_only_writes_nothing [OF tx_begin_reads])
  show "writes_nothing w wv" if "tx_validate n w t = (rv', wv)"
    using that by (rule reads_only_writes_nothing [OF tx_validate_reads])
  show "writes_nothing w wr" if "tx_read n a w t = (rr, wr, tr)"
    using that by (rule reads_only_writes_nothing [OF tx_read_reads])
  show "writes_nothing w wc" if "tx_commit n w t = (Throws m, wc, tc)"
    using tx_commit_waits [OF that] by (simp add: waits_writes_nothing)
  show "writes_nothing w wc'" if "tx_commit n w t = (Running, wc', tc')"
    using tx_commit_waits [OF that] by (simp add: waits_writes_nothing)
  show "writes_nothing w wa" if "th_run_attempt n r1 r2 w t = (Returns True, wa, ta)"
    using that by (rule th_run_attempt_aborted)
  show "stores (trace wd) = stores (trace w) @ write_set t"
    if "tx_commit n w t = (Returns u, wd, td)"
    using tx_commit_stores [OF that] by simp
  show "accts (mem wd) = accts (fold (\<lambda>(a, v). set_value a v) (write_set t) (mem w))"
    if "tx_commit n w t = (Returns u, wd, td)" and "others w = []"
    using tx_commit_stores [OF that(1)] that(2) by simp
  show "length (accts (mem wd)) = length (accts (mem w))"
    "\<forall>(a, v) \<in> set (write_set t).
       accts (mem wd) ! nat (sint a) = (accts (mem w) ! nat (sint a))\<lparr>val := v\<rparr>"
    "\<forall>i. i \<notin> (\<lambda>(a, v). nat (sint a)) ` set (write_set t) \<longrightarrow>
       accts (mem wd) ! i = accts (mem w) ! i"
    if "tx_commit n w t = (Returns u, wd, td)" and "others w = []"
      and "distinct (map fst (write_set t))"
    using tx_commit_cells [OF that] by simp_all
qed

theorem abort_writes_nothing_witness:
  "tx_commit (Suc (Suc 0))
     \<lparr>mem = \<lparr>accts = [\<lparr>addr = 0, val = 900\<rparr>, \<lparr>addr = 1, val = 1000\<rparr>], global_clock = 2\<rparr>,
      others = [], trace = []\<rparr>
     \<lparr>read_set = [\<lparr>addr = 0, val = 1000\<rparr>], write_set = [(0, 950), (1, 1050)], rv = 0\<rparr>
   = (Throws ''Transaction ABORTED'',
      \<lparr>mem = \<lparr>accts = [\<lparr>addr = 0, val = 900\<rparr>, \<lparr>addr = 1, val = 1000\<rparr>], global_clock = 2\<rparr>,
       others = [], trace = [CasClock 0 1 False, LoadClock 2, LoadValue 0 900]\<rparr>,
      \<lparr>read_set = [\<lparr>addr = 0, val = 1000\<rparr>], write_set = [(0, 950), (1, 1050)], rv = 0\<rparr>) \<and>
   stores [CasClock 0 1 False, LoadClock 2, LoadValue 0 900] = [] \<and>
   th_run_attempt (Suc (Suc 0)) 0 1
     ((main_init 3)\<lparr>others :=
        [id, id, id, \<lambda>s. (set_value 2 1050 (set_value 0 950 s))\<lparr>global_clock := 2\<rparr>]\<rparr>)
     tx_init
   = (Returns True,
      \<lparr>mem = \<lparr>accts = [\<lparr>addr = 0, val = 950\<rparr>, \<lparr>addr = 1, val = 1000\<rparr>, \<lparr>addr = 2, val = 1050\<rparr>],
              global_clock = 2\<rparr>,
       others = [],
       trace = [LoadClock 0, LoadValue 0 1000, LoadClock 0, LoadValue 1 1000, LoadClock 2,
                LoadClock 2, LoadValue 0 950]\<rparr>,
      \<lparr>read_set = [\<lparr>addr = 0, val = 1000\<rparr>], write_set = [], rv = 0\<rparr>) \<and>
   stores [LoadClock 0, LoadValue 0 1000, LoadClock 0, LoadValue 1 1000, LoadClock 2,
           LoadClock 2, LoadValue 0 950] = [] \<and>
   tx_commit (Suc 0) (main_init 2)
     \<lparr>read_set = [\<lparr>addr = 0, val = 1000\<rparr>, \<lparr>addr = 1, val = 1000\<rparr>],
      write_set = [(0, 950), (1, 1050)], rv = 0\<rparr>
   = (Returns (),
      \<lparr>mem = \<lparr>accts = [\<lparr>addr = 0, val = 950\<rparr>, \<lparr>addr = 1, val = 1050\<rparr>], global_clock = 2\<rparr>,
       others = [],
       trace = [CasClock 0 1 True, StoreValue 0 950, StoreValue 1 1050, StoreClock 2]\<rparr>,
      \<lparr>read_set = [\<lparr>addr = 0, val = 1000\<rparr>, \<lparr>addr = 1, val = 1000\<rparr>],
       write_set = [(0, 950), (1, 1050)], rv = 0\<rparr>) \<and>
   stores [CasClock 0 1 True, StoreValue 0 950, StoreValue 1 1050, StoreClock 2] =
     [(0, 950), (1, 1050)] \<and>
   distinct (map fst [(0 :: 32 word, 950 :: 32 word), (1, 1050)]) \<and>
   [\<lparr>addr = 0, val = 950\<rparr>, \<lparr>addr = 1, val = 1050 :: 32 word\<rparr>] ! nat (sint (1 :: 32 word)) =
     (accts (mem (main_init 2)) ! nat (sint (1 :: 32 word)))\<lparr>val := 1050\<rparr>"
  (is "tx_commit ?n2 ?W1 ?T1 = (Throws ?m, ?W1', ?T1') \<and> ?S1 \<and>
       th_run_attempt _ 0 1 ?W2 tx_init = (Returns True, ?W2', ?T2') \<and> ?S2 \<and>
       tx_commit ?n1 ?W3 ?T3 = (Returns (), ?W3', ?T3') \<and> ?S3 \<and> ?D \<and> ?C")
proof -
  have run1: "tx_commit ?n2 ?W1 ?T1 = (Throws ?m, ?W1', ?T1')"
    by (simp add: run_defs)
  have run2: "th_run_attempt ?n2 0 1 ?W2 tx_init = (Returns True, ?W2', ?T2')"
    by (simp add: main_init_3 run_defs ten_rounds)
  have run3: "tx_commit ?n1 ?W3 ?T3 = (Returns (), ?W3', ?T3')"
    by (simp add: main_init_2 run_defs)
  note thm1 = abort_writes_nothing
    [where n = ?n2 and w = ?W1 and t = ?T1 and m = ?m and wc = ?W1' and tc = ?T1']
  note thm2 = abort_writes_nothing
    [where n = ?n2 and w = ?W2 and t = tx_init and ?r1.0 = 0 and ?r2.0 = 1 and wa = ?W2'
       and ta = ?T2']
  note thm3 = abort_writes_nothing
    [where n = ?n1 and w = ?W3 and t = ?T3 and u = "()" and wd = ?W3' and td = ?T3']
  from thm1 run1 have "writes_nothing ?W1 ?W1'" by blast
  then have s1: ?S1 by (simp add: writes_nothing_def)
  from thm2 run2 have "writes_nothing ?W2 ?W2'" by blast
  then have s2: ?S2 by (simp add: writes_nothing_def main_init_3)
  from thm3 run3 have "stores (trace ?W3') = stores (trace ?W3) @ write_set ?T3" by blast
  then have s3: ?S3 by (simp add: main_init_2)
  have d: ?D by simp
  have alone: "others ?W3 = []" by (simp add: main_init_2)
  from thm3 run3 alone d
  have "\<forall>(a, v) \<in> set (write_set ?T3).
          accts (mem ?W3') ! nat (sint a) = (accts (mem ?W3) ! nat (sint a))\<lparr>val := v\<rparr>"
    by simp
  then have c: ?C by simp
  from run1 s1 run2 s2 run3 s3 d c show ?thesis by blast
qed

section \<open>Aborts\<close>

lemma mismatch_last_snoc:
  "mismatch_last rs (evs @ [LoadValue a v]) = (\<exists>e \<in> set rs. addr e = a \<and> val e \<noteq> v)"
  by (simp add: mismatch_last_def)

lemma mismatch_last_Cons: "mismatch_last rs evs \<Longrightarrow> mismatch_last (e # rs) evs"
  by (auto simp: mismatch_last_def split: list.splits event.splits)

lemma validate_scan_throws:
  "validate_scan temp es w = (Throws m, w') \<Longrightarrow>
   m = ''Transaction ABORTED'' \<and> mismatch_last es (trace w')"
proof (induction es arbitrary: w)
  case Nil
  then show ?case by simp
next
  case (Cons e es)
  show ?case
  proof (cases "load_value (addr e) w")
    case None
    with Cons.prems show ?thesis by simp
  next
    case (Some p)
    obtain v w1 where p: "p = (v, w1)" by (cases p)
    have t1: "trace w1 = trace w @ [LoadValue (addr e) v]"
      using Some p by (simp add: load_value_trace)
    obtain c w2 where lc: "load_clock w1 = (c, w2)" by (cases "load_clock w1")
    consider "val e \<noteq> v" | "val e = v" "temp = c" | "val e = v" "temp \<noteq> c" by blast
    then show ?thesis
    proof cases
      case 1
      with Cons.prems Some p have "m = ''Transaction ABORTED''" "w' = w1"
        by (simp_all add: tx_abort_def)
      with 1 t1 show ?thesis by (simp add: mismatch_last_snoc)
    next
      case 2
      with Cons.prems Some p lc show ?thesis by simp
    next
      case 3
      with Cons.prems Some p lc have "validate_scan temp es w2 = (Throws m, w')" by simp
      from Cons.IH [OF this] show ?thesis by (simp add: mismatch_last_Cons)
    qed
  qed
qed

lemma tx_validate_throws:
  "tx_validate n w t = (Throws m, w') \<Longrightarrow>
   m = ''Transaction ABORTED'' \<and> mismatch_last (read_set t) (trace w')"
proof (induction n arbitrary: w)
  case 0
  then show ?case by simp
next
  case (Suc n)
  obtain temp w1 where lc: "load_clock w = (temp, w1)" by (cases "load_clock w")
  show ?case
  proof (cases "temp AND 1 \<noteq> 0")
    case True
    with Suc.prems lc have "tx_validate n w1 t = (Throws m, w')" by simp
    from Suc.IH [OF this] show ?thesis .
  next
    case False
    obtain q w2 where vs: "validate_scan temp (read_set t) w1 = (q, w2)"
      by (cases "validate_scan temp (read_set t) w1")
    show ?thesis
    proof (cases q)
      case (Returns x)
      show ?thesis
      proof (cases x)
        case None
        with Suc.prems lc False vs Returns have "tx_validate n w2 t = (Throws m, w')" by simp
        from Suc.IH [OF this] show ?thesis .
      next
        case (Some y)
        with Suc.prems lc False vs Returns show ?thesis by simp
      qed
    next
      case (Throws m')
      with Suc.prems lc False vs have "m' = m" "w2 = w'" by simp_all
      with vs Throws validate_scan_throws [of temp "read_set t" w1 m w'] show ?thesis by simp
    qed (use Suc.prems lc False vs in auto)
  qed
qed

lemma read_loop_throws:
  "read_loop n a v w t = (Throws m, w', t') \<Longrightarrow>
   m = ''Transaction ABORTED'' \<and> mismatch_last (read_set t) (trace w')"
proof (induction n arbitrary: v w t)
  case 0
  then show ?case by simp
next
  case (Suc n)
  obtain c w1 where lc: "load_clock w = (c, w1)" by (cases "load_clock w")
  show ?case
  proof (cases "rv t \<noteq> c")
    case False
    with Suc.prems lc show ?thesis by simp
  next
    case True
    obtain q w2 where tv: "tx_validate n w1 t = (q, w2)" by (cases "tx_validate n w1 t")
    show ?thesis
    proof (cases q)
      case (Returns x)
      show ?thesis
      proof (cases "load_value a w2")
        case None
        with Suc.prems lc True tv Returns show ?thesis by simp
      next
        case (Some p)
        obtain v' w3 where p: "p = (v', w3)" by (cases p)
        from Suc.prems lc True tv Returns Some p
        have "read_loop n a v' w3 (t\<lparr>rv := x\<rparr>) = (Throws m, w', t')" by simp
        from Suc.IH [OF this] show ?thesis by simp
      qed
    next
      case (Throws m')
      with Suc.prems lc True tv have "m' = m" "w2 = w'" by simp_all
      with tv Throws tx_validate_throws [of n w1 t m w'] show ?thesis by simp
    qed (use Suc.prems lc True tv in auto)
  qed
qed

lemma commit_cas_throws:
  "commit_cas n w t = (Throws m, w', t') \<Longrightarrow>
   m = ''Transaction ABORTED'' \<and> mismatch_last (read_set t) (trace w')"
proof (induction n arbitrary: w t)
  case 0
  then show ?case by simp
next
  case (Suc n)
  obtain b w1 where cas: "cas_clock (rv t) (rv t + 1) w = (b, w1)"
    by (cases "cas_clock (rv t) (rv t + 1) w")
  show ?case
  proof (cases b)
    case True
    with Suc.prems cas show ?thesis by simp
  next
    case False
    obtain q w2 where tv: "tx_validate n w1 t = (q, w2)" by (cases "tx_validate n w1 t")
    show ?thesis
    proof (cases q)
      case (Returns x)
      with Suc.prems cas False tv have "commit_cas n w2 (t\<lparr>rv := x\<rparr>) = (Throws m, w', t')"
        by simp
      from Suc.IH [OF this] show ?thesis by simp
    next
      case (Throws m')
      with Suc.prems cas False tv have "m' = m" "w2 = w'" by simp_all
      with tv Throws tx_validate_throws [of n w1 t m w'] show ?thesis by simp
    qed (use Suc.prems cas False tv in auto)
  qed
qed

lemma begin_spin_no_throw: "fst (begin_spin n w t) \<noteq> Throws m"
  by (induction n arbitrary: w t) (auto split: prod.splits)

lemma tx_commit_throws:
  assumes "tx_commit n w t = (Throws m, w', t')"
  shows "m = ''Transaction ABORTED'' \<and> mismatch_last (read_set t) (trace w') \<and>
         (\<forall>u w1 t1. commit_cas n w t \<noteq> (Returns u, w1, t1))"
proof (cases "write_set t = []")
  case True
  with assms show ?thesis by (simp add: tx_commit_def)
next
  case False
  obtain q w1 t1 where cc: "commit_cas n w t = (q, w1, t1)" by (cases "commit_cas n w t")
  from assms tx_commit_unfold [OF False cc] have "q = Throws m \<and> w1 = w'"
    by (cases q) (auto split: option.splits)
  with cc commit_cas_throws [of n w t m w' t1] show ?thesis by simp
qed

lemma validate_scan_append:
  "validate_scan temp ps w = (Returns None, w0) \<Longrightarrow>
   validate_scan temp (ps @ qs) w = validate_scan temp qs w0"
proof (induction ps arbitrary: w)
  case Nil
  then show ?case by simp
next
  case (Cons e ps)
  show ?case
  proof (cases "load_value (addr e) w")
    case None
    with Cons.prems show ?thesis by simp
  next
    case (Some p)
    obtain v w1 where p: "p = (v, w1)" by (cases p)
    obtain c w2 where lc: "load_clock w1 = (c, w2)" by (cases "load_clock w1")
    from Cons.prems Some p lc have ok: "val e = v" "temp \<noteq> c"
      by (auto simp: tx_abort_def split: if_splits)
    with Cons.prems Some p lc have "validate_scan temp ps w2 = (Returns None, w0)" by simp
    from Cons.IH [OF this] Some p lc ok show ?thesis by simp
  qed
qed

text \<open>
  C8: the only thing thrown is the string of \<^verbatim>\<open>tx_abort\<close>, and only by the scan of the
  read set. \<^verbatim>\<open>tx_begin\<close> never throws. When \<^verbatim>\<open>tx_validate\<close>, \<^verbatim>\<open>tx_read\<close> or
  \<^verbatim>\<open>tx_commit\<close> throws, the last access made was the load of the cell of an entry of the
  read set, and the value loaded differs from the value the entry records; in \<^verbatim>\<open>tx_commit\<close>
  this is before the compare-and-swap has succeeded, so the write-back does not throw.
  Conversely, when the scan reaches an entry (the entries \<open>ps\<close> before it have been passed)
  and loads a value that differs from the recorded one, it throws at once, whatever entries
  \<open>es\<close> follow.
\<close>

theorem abort_only_on_mismatch:
  "(\<forall>m. fst (tx_begin n w t) \<noteq> Throws m) \<and>
   (tx_validate n w t = (Throws m1, w1) \<longrightarrow>
      m1 = ''Transaction ABORTED'' \<and> mismatch_last (read_set t) (trace w1)) \<and>
   (tx_read n a w t = (Throws m2, w2, t2) \<longrightarrow>
      m2 = ''Transaction ABORTED'' \<and> mismatch_last (read_set t) (trace w2)) \<and>
   (tx_commit n w t = (Throws m3, w3, t3) \<longrightarrow>
      m3 = ''Transaction ABORTED'' \<and> mismatch_last (read_set t) (trace w3) \<and>
      (\<forall>u w4 t4. commit_cas n w t \<noteq> (Returns u, w4, t4))) \<and>
   (validate_scan temp ps w = (Returns None, w5) \<longrightarrow>
    load_value (addr e) w5 = Some (v, w6) \<longrightarrow> val e \<noteq> v \<longrightarrow>
      validate_scan temp (ps @ e # es) w = (Throws ''Transaction ABORTED'', w6))"
proof (intro conjI impI allI)
  show "fst (tx_begin n w t) \<noteq> Throws m" for m
    by (simp add: tx_begin_def begin_spin_no_throw)
  show "m1 = ''Transaction ABORTED''" "mismatch_last (read_set t) (trace w1)"
    if "tx_validate n w t = (Throws m1, w1)"
    using tx_validate_throws [OF that] by simp_all
  have rd: "m2 = ''Transaction ABORTED'' \<and> mismatch_last (read_set t) (trace w2)"
    if "tx_read n a w t = (Throws m2, w2, t2)"
    using that by (auto simp: tx_read_def split: option.splits dest: read_loop_throws)
  show "m2 = ''Transaction ABORTED''" "mismatch_last (read_set t) (trace w2)"
    if "tx_read n a w t = (Throws m2, w2, t2)"
    using rd [OF that] by simp_all
  show "m3 = ''Transaction ABORTED''" "mismatch_last (read_set t) (trace w3)"
    "commit_cas n w t \<noteq> (Returns u, w4, t4)"
    if "tx_commit n w t = (Throws m3, w3, t3)" for u w4 t4
    using tx_commit_throws [OF that] by simp_all
  show "validate_scan temp (ps @ e # es) w = (Throws ''Transaction ABORTED'', w6)"
    if "validate_scan temp ps w = (Returns None, w5)" "load_value (addr e) w5 = Some (v, w6)"
      "val e \<noteq> v"
    using that by (simp add: validate_scan_append tx_abort_def)
qed

theorem abort_only_on_mismatch_witness:
  "fst (tx_begin (Suc 0) (main_init 2) tx_init) = Returns () \<and>
   tx_validate (Suc 0)
     \<lparr>mem = \<lparr>accts = [\<lparr>addr = 0, val = 900\<rparr>, \<lparr>addr = 1, val = 1000\<rparr>], global_clock = 2\<rparr>,
      others = [], trace = []\<rparr>
     \<lparr>read_set = [\<lparr>addr = 0, val = 1000\<rparr>], write_set = [(0, 950), (1, 1050)], rv = 0\<rparr>
   = (Throws ''Transaction ABORTED'',
      \<lparr>mem = \<lparr>accts = [\<lparr>addr = 0, val = 900\<rparr>, \<lparr>addr = 1, val = 1000\<rparr>], global_clock = 2\<rparr>,
       others = [], trace = [LoadClock 2, LoadValue 0 900]\<rparr>) \<and>
   mismatch_last [\<lparr>addr = 0, val = 1000\<rparr>] [LoadClock 2, LoadValue 0 900] \<and>
   tx_read (Suc (Suc 0)) 1
     \<lparr>mem = \<lparr>accts = [\<lparr>addr = 0, val = 900\<rparr>, \<lparr>addr = 1, val = 1000\<rparr>], global_clock = 2\<rparr>,
      others = [], trace = []\<rparr>
     \<lparr>read_set = [\<lparr>addr = 0, val = 1000\<rparr>], write_set = [], rv = 0\<rparr>
   = (Throws ''Transaction ABORTED'',
      \<lparr>mem = \<lparr>accts = [\<lparr>addr = 0, val = 900\<rparr>, \<lparr>addr = 1, val = 1000\<rparr>], global_clock = 2\<rparr>,
       others = [], trace = [LoadValue 1 1000, LoadClock 2, LoadClock 2, LoadValue 0 900]\<rparr>,
      \<lparr>read_set = [\<lparr>addr = 0, val = 1000\<rparr>], write_set = [], rv = 0\<rparr>) \<and>
   mismatch_last [\<lparr>addr = 0, val = 1000\<rparr>]
     [LoadValue 1 1000, LoadClock 2, LoadClock 2, LoadValue 0 900] \<and>
   tx_commit (Suc (Suc 0))
     \<lparr>mem = \<lparr>accts = [\<lparr>addr = 0, val = 900\<rparr>, \<lparr>addr = 1, val = 1000\<rparr>], global_clock = 2\<rparr>,
      others = [], trace = []\<rparr>
     \<lparr>read_set = [\<lparr>addr = 0, val = 1000\<rparr>], write_set = [(0, 950), (1, 1050)], rv = 0\<rparr>
   = (Throws ''Transaction ABORTED'',
      \<lparr>mem = \<lparr>accts = [\<lparr>addr = 0, val = 900\<rparr>, \<lparr>addr = 1, val = 1000\<rparr>], global_clock = 2\<rparr>,
       others = [], trace = [CasClock 0 1 False, LoadClock 2, LoadValue 0 900]\<rparr>,
      \<lparr>read_set = [\<lparr>addr = 0, val = 1000\<rparr>], write_set = [(0, 950), (1, 1050)], rv = 0\<rparr>) \<and>
   mismatch_last [\<lparr>addr = 0, val = 1000\<rparr>] [CasClock 0 1 False, LoadClock 2, LoadValue 0 900] \<and>
   validate_scan 0 [\<lparr>addr = 0, val = 900\<rparr>, \<lparr>addr = 1, val = 950\<rparr>, \<lparr>addr = 0, val = 800\<rparr>]
     \<lparr>mem = \<lparr>accts = [\<lparr>addr = 0, val = 900\<rparr>, \<lparr>addr = 1, val = 1000\<rparr>], global_clock = 2\<rparr>,
      others = [], trace = []\<rparr>
   = (Throws ''Transaction ABORTED'',
      \<lparr>mem = \<lparr>accts = [\<lparr>addr = 0, val = 900\<rparr>, \<lparr>addr = 1, val = 1000\<rparr>], global_clock = 2\<rparr>,
       others = [], trace = [LoadValue 0 900, LoadClock 2, LoadValue 1 1000]\<rparr>)"
  (is "?B \<and> tx_validate ?n1 ?W ?T = (Throws ?m, ?Wv) \<and> ?Mv \<and>
       tx_read ?n2 1 ?W ?Tr = (Throws ?m, ?Wr, ?Tr) \<and> ?Mr \<and>
       tx_commit ?n2 ?W ?T = (Throws ?m, ?Wc, ?T) \<and> ?Mc \<and>
       validate_scan 0 [?e0, ?e1, ?e2] ?W = (Throws ?m, ?Ws)")
proof -
  have runv: "tx_validate ?n1 ?W ?T = (Throws ?m, ?Wv)" by (simp add: run_defs)
  have runr: "tx_read ?n2 1 ?W ?Tr = (Throws ?m, ?Wr, ?Tr)" by (simp add: run_defs)
  have runc: "tx_commit ?n2 ?W ?T = (Throws ?m, ?Wc, ?T)" by (simp add: run_defs)
  have pass: "validate_scan 0 [?e0] ?W =
      (Returns None, ?W\<lparr>trace := [LoadValue 0 900, LoadClock 2]\<rparr>)"
    by (simp add: run_defs)
  have load: "load_value (addr ?e1) (?W\<lparr>trace := [LoadValue 0 900, LoadClock 2]\<rparr>) =
      Some (1000, ?Ws)"
    by (simp add: run_defs)
  note thmb = abort_only_on_mismatch [where n = "Suc 0" and w = "main_init 2" and t = tx_init]
  note thmv = abort_only_on_mismatch [where n = ?n1 and w = ?W and t = ?T and ?m1.0 = ?m
      and ?w1.0 = ?Wv]
  note thmr = abort_only_on_mismatch [where n = ?n2 and a = 1 and w = ?W and t = ?Tr
      and ?m2.0 = ?m and ?w2.0 = ?Wr and ?t2.0 = ?Tr]
  note thmc = abort_only_on_mismatch [where n = ?n2 and w = ?W and t = ?T and ?m3.0 = ?m
      and ?w3.0 = ?Wc and ?t3.0 = ?T]
  note thms = abort_only_on_mismatch [where temp = 0 and ps = "[?e0]" and w = ?W
      and ?w5.0 = "?W\<lparr>trace := [LoadValue 0 900, LoadClock 2]\<rparr>" and e = ?e1 and v = 1000
      and ?w6.0 = ?Ws and es = "[?e2]"]
  have b: ?B
  proof -
    have "fst (tx_begin (Suc 0) (main_init 2) tx_init) \<in> {Returns (), Undefined, Running}
        \<or> (\<exists>m. fst (tx_begin (Suc 0) (main_init 2) tx_init) = Throws m)"
      by (cases "fst (tx_begin (Suc 0) (main_init 2) tx_init)") auto
    with thmb have "fst (tx_begin (Suc 0) (main_init 2) tx_init) \<in> {Returns (), Undefined, Running}"
      by blast
    then show ?thesis by (simp add: main_init_2 run_defs)
  qed
  from thmv runv have mv: ?Mv by simp
  from thmr runr have mr: ?Mr by simp
  from thmc runc have mc: ?Mc by simp
  from thms pass load have s: "validate_scan 0 [?e0, ?e1, ?e2] ?W = (Throws ?m, ?Ws)" by simp
  from b runv mv runr mr runc mc s show ?thesis by blast
qed

section \<open>The parity of rv\<close>

lemma validate_scan_returns_temp:
  "validate_scan temp es w = (Returns (Some r), w') \<Longrightarrow> r = temp"
proof (induction es arbitrary: w)
  case Nil
  then show ?case by simp
next
  case (Cons e es)
  show ?case
  proof (cases "load_value (addr e) w")
    case None
    with Cons.prems show ?thesis by simp
  next
    case (Some p)
    obtain v w1 where p: "p = (v, w1)" by (cases p)
    obtain c w2 where lc: "load_clock w1 = (c, w2)" by (cases "load_clock w1")
    consider "val e \<noteq> v" | "val e = v" "temp = c" | "val e = v" "temp \<noteq> c" by blast
    then show ?thesis
    proof cases
      case 1
      with Cons.prems Some p show ?thesis by (simp add: tx_abort_def)
    next
      case 2
      with Cons.prems Some p lc show ?thesis by simp
    next
      case 3
      with Cons.prems Some p lc have "validate_scan temp es w2 = (Returns (Some r), w')" by simp
      from Cons.IH [OF this] show ?thesis .
    qed
  qed
qed

lemma tx_validate_even: "tx_validate n w t = (Returns r, w') \<Longrightarrow> r AND 1 = 0"
proof (induction n arbitrary: w)
  case 0
  then show ?case by simp
next
  case (Suc n)
  obtain temp w1 where lc: "load_clock w = (temp, w1)" by (cases "load_clock w")
  show ?case
  proof (cases "temp AND 1 \<noteq> 0")
    case True
    with Suc.prems lc have "tx_validate n w1 t = (Returns r, w')" by simp
    from Suc.IH [OF this] show ?thesis .
  next
    case False
    obtain q w2 where vs: "validate_scan temp (read_set t) w1 = (q, w2)"
      by (cases "validate_scan temp (read_set t) w1")
    show ?thesis
    proof (cases q)
      case (Returns x)
      show ?thesis
      proof (cases x)
        case None
        with Suc.prems lc False vs Returns have "tx_validate n w2 t = (Returns r, w')" by simp
        from Suc.IH [OF this] show ?thesis .
      next
        case (Some y)
        with Suc.prems lc False vs Returns have "y = r" by simp
        moreover from vs Returns Some have "y = temp" by (simp add: validate_scan_returns_temp)
        ultimately show ?thesis using False by simp
      qed
    qed (use Suc.prems lc False vs in auto)
  qed
qed

lemma begin_spin_even: "begin_spin n w t = (Returns u, w', t') \<Longrightarrow> rv t' AND 1 = 0"
proof (induction n arbitrary: w t)
  case 0
  then show ?case by simp
next
  case (Suc n)
  obtain c w1 where lc: "load_clock w = (c, w1)" by (cases "load_clock w")
  show ?case
  proof (cases "c AND 1 \<noteq> 0")
    case True
    with Suc.prems lc have "begin_spin n w1 (t\<lparr>rv := c\<rparr>) = (Returns u, w', t')" by simp
    from Suc.IH [OF this] show ?thesis .
  next
    case False
    with Suc.prems lc show ?thesis by auto
  qed
qed

lemma read_loop_even:
  "rv t AND 1 = 0 \<Longrightarrow> read_loop n a v w t = (r, w', t') \<Longrightarrow> rv t' AND 1 = 0"
proof (induction n arbitrary: v w t)
  case 0
  then show ?case by simp
next
  case (Suc n)
  obtain c w1 where lc: "load_clock w = (c, w1)" by (cases "load_clock w")
  show ?case
  proof (cases "rv t \<noteq> c")
    case False
    with Suc.prems lc show ?thesis by auto
  next
    case True
    obtain q w2 where tv: "tx_validate n w1 t = (q, w2)" by (cases "tx_validate n w1 t")
    show ?thesis
    proof (cases q)
      case (Returns x)
      have x: "x AND 1 = 0" using tv Returns by (simp add: tx_validate_even)
      show ?thesis
      proof (cases "load_value a w2")
        case None
        with Suc.prems lc True tv Returns x show ?thesis by auto
      next
        case (Some p)
        obtain v' w3 where p: "p = (v', w3)" by (cases p)
        from Suc.prems lc True tv Returns Some p
        have "read_loop n a v' w3 (t\<lparr>rv := x\<rparr>) = (r, w', t')" by simp
        with Suc.IH [of "t\<lparr>rv := x\<rparr>" v' w3] x show ?thesis by simp
      qed
    qed (use Suc.prems lc True tv in auto)
  qed
qed

lemma even_succ_odd: "(x :: 32 word) AND 1 = 0 \<Longrightarrow> (x + 1) AND 1 = 1"
  by (simp add: and_one_eq mod_2_eq_odd)

lemma is_load_even_to_odd: "list_all is_load evs \<Longrightarrow> list_all even_to_odd evs"
proof (induction evs)
  case Nil
  then show ?case by simp
next
  case (Cons e evs)
  then show ?case by (cases e) simp_all
qed

lemma reads_only_even_to_odd:
  "reads_only w w' \<Longrightarrow> list_all even_to_odd (trace w) \<Longrightarrow> list_all even_to_odd (trace w')"
  by (auto simp: reads_only_def dest: is_load_even_to_odd)

lemma cas_clock_even_to_odd:
  "e AND 1 = 0 \<Longrightarrow> cas_clock e (e + 1) w = (b, w') \<Longrightarrow>
   list_all even_to_odd (trace w) \<Longrightarrow> list_all even_to_odd (trace w')"
  by (auto simp: cas_clock_def Let_def observe_def trace_interfere even_succ_odd
      split: if_splits)

lemma commit_cas_even:
  "rv t AND 1 = 0 \<Longrightarrow> commit_cas n w t = (r, w', t') \<Longrightarrow>
   rv t' AND 1 = 0 \<and> (list_all even_to_odd (trace w) \<longrightarrow> list_all even_to_odd (trace w'))"
proof (induction n arbitrary: w t)
  case 0
  then show ?case by simp
next
  case (Suc n)
  obtain b w1 where cas: "cas_clock (rv t) (rv t + 1) w = (b, w1)"
    by (cases "cas_clock (rv t) (rv t + 1) w")
  note s1 = cas_clock_even_to_odd [OF Suc.prems(1) cas]
  show ?case
  proof (cases b)
    case True
    with Suc.prems cas s1 show ?thesis by auto
  next
    case False
    obtain q w2 where tv: "tx_validate n w1 t = (q, w2)" by (cases "tx_validate n w1 t")
    note s2 = reads_only_even_to_odd [OF tx_validate_reads [OF tv]]
    show ?thesis
    proof (cases q)
      case (Returns x)
      have x: "x AND 1 = 0" using tv Returns by (simp add: tx_validate_even)
      from Suc.prems cas False tv Returns
      have "commit_cas n w2 (t\<lparr>rv := x\<rparr>) = (r, w', t')" by simp
      with Suc.IH [of "t\<lparr>rv := x\<rparr>" w2] x s1 s2 show ?thesis by simp
    qed (use Suc.prems cas False tv s1 s2 in auto)
  qed
qed

lemma write_back_even_to_odd:
  "write_back xs w = Some w' \<Longrightarrow> list_all even_to_odd (trace w) \<Longrightarrow>
   list_all even_to_odd (trace w')"
  by (auto simp: list_all_iff dest!: write_back_trace)

lemma tx_commit_even:
  assumes "rv t AND 1 = 0" and "tx_commit n w t = (r, w', t')"
  shows "rv t' AND 1 = 0 \<and>
         (list_all even_to_odd (trace w) \<longrightarrow> list_all even_to_odd (trace w'))"
proof (cases "write_set t = []")
  case True
  with assms show ?thesis by (auto simp: tx_commit_def)
next
  case False
  obtain q w1 t1 where cc: "commit_cas n w t = (q, w1, t1)" by (cases "commit_cas n w t")
  note c = commit_cas_even [OF assms(1) cc]
  note eq = assms(2) [unfolded tx_commit_unfold [OF False cc]]
  show ?thesis
  proof (cases q)
    case (Returns u)
    show ?thesis
    proof (cases "write_back (write_set t1) w1")
      case None
      with eq Returns c show ?thesis by auto
    next
      case (Some w2)
      with eq Returns have "w' = store_clock (rv t1 + 2) w2" "t' = t1" by auto
      with c write_back_even_to_odd [OF Some] show ?thesis by (simp add: store_clock_trace)
    qed
  qed (use eq c in auto)
qed

lemma between_calls_even: "between_calls t \<Longrightarrow> rv t AND 1 = 0"
proof (induction rule: between_calls.induct)
  case start
  show ?case by (simp add: tx_init_def)
next
  case (begun t n w u w' t')
  then show ?case by (auto simp: tx_begin_def dest: begin_spin_even)
next
  case (written t a v)
  then show ?case by (simp add: tx_write_def)
next
  case (read t n a w x w' t')
  then show ?case by (auto simp: tx_read_def split: option.splits dest: read_loop_even)
next
  case (read_aborted t n a w m w' t')
  then show ?case by (auto simp: tx_read_def split: option.splits dest: read_loop_even)
next
  case (committed t n w u w' t')
  from tx_commit_even [OF committed.IH committed.hyps(2)] show ?case by simp
next
  case (commit_aborted t n w m w' t')
  from tx_commit_even [OF commit_aborted.IH commit_aborted.hyps(2)] show ?case by simp
qed

text \<open>
  C10: \<^verbatim>\<open>rv\<close> is even outside the loop of \<^verbatim>\<open>tx_begin\<close>. It starts at 0; \<^verbatim>\<open>tx_begin\<close>
  returns with an even \<^verbatim>\<open>rv\<close>; \<^verbatim>\<open>tx_validate\<close> returns even values only; and from an even
  \<^verbatim>\<open>rv\<close>, \<^verbatim>\<open>tx_write\<close>, \<^verbatim>\<open>tx_read\<close> and \<^verbatim>\<open>tx_commit\<close> leave \<^verbatim>\<open>rv\<close> even however
  they end (also when they throw, and at every point at which the fuel may run out).
  Every compare-and-swap that \<^verbatim>\<open>tx_commit\<close> then attempts is from an even value to the
  next, odd one. So \<^verbatim>\<open>rv\<close> is even whenever the thread is between two calls, and every
  compare-and-swap of a \<^verbatim>\<open>tx_commit\<close> called there goes from even to odd.
\<close>

theorem rv_stays_even:
  "rv tx_init AND 1 = 0 \<and>
   (tx_begin n w t = (Returns u, w1, t1) \<longrightarrow> rv t1 AND 1 = 0) \<and>
   (tx_validate n w t = (Returns c, w2) \<longrightarrow> c AND 1 = 0) \<and>
   (rv t AND 1 = 0 \<longrightarrow>
      rv (tx_write a v t) AND 1 = 0 \<and>
      (tx_read n a w t = (r3, w3, t3) \<longrightarrow> rv t3 AND 1 = 0) \<and>
      (tx_commit n w t = (r4, w4, t4) \<longrightarrow>
         rv t4 AND 1 = 0 \<and>
         (list_all even_to_odd (trace w) \<longrightarrow> list_all even_to_odd (trace w4)))) \<and>
   (between_calls t \<longrightarrow>
      rv t AND 1 = 0 \<and>
      (tx_commit n w t = (r5, w5, t5) \<longrightarrow> list_all even_to_odd (trace w) \<longrightarrow>
         list_all even_to_odd (trace w5)))"
proof (intro conjI impI)
  show "rv tx_init AND 1 = 0" by (simp add: tx_init_def)
  show "rv t1 AND 1 = 0" if "tx_begin n w t = (Returns u, w1, t1)"
    using that by (auto simp: tx_begin_def dest: begin_spin_even)
  show "c AND 1 = 0" if "tx_validate n w t = (Returns c, w2)"
    using that by (rule tx_validate_even)
  show "rv (tx_write a v t) AND 1 = 0" if "rv t AND 1 = 0"
    using that by (simp add: tx_write_def)
  show "rv t3 AND 1 = 0" if "rv t AND 1 = 0" "tx_read n a w t = (r3, w3, t3)"
    using that by (auto simp: tx_read_def split: option.splits dest: read_loop_even)
  show "rv t4 AND 1 = 0" if "rv t AND 1 = 0" "tx_commit n w t = (r4, w4, t4)"
    using tx_commit_even [OF that] by simp
  show "list_all even_to_odd (trace w4)"
    if "rv t AND 1 = 0" "tx_commit n w t = (r4, w4, t4)" "list_all even_to_odd (trace w)"
    using tx_commit_even [OF that(1,2)] that(3) by simp
  show "rv t AND 1 = 0" if "between_calls t"
    using that by (rule between_calls_even)
  show "list_all even_to_odd (trace w5)"
    if "between_calls t" "tx_commit n w t = (r5, w5, t5)" "list_all even_to_odd (trace w)"
    using tx_commit_even [OF between_calls_even [OF that(1)] that(2)] that(3) by simp
qed

theorem rv_stays_even_witness:
  "tx_begin (Suc 0)
     \<lparr>mem = \<lparr>accts = [\<lparr>addr = 0, val = 1000\<rparr>, \<lparr>addr = 1, val = 1000\<rparr>], global_clock = 2\<rparr>,
      others = [], trace = []\<rparr>
     \<lparr>read_set = [\<lparr>addr = 0, val = 1000\<rparr>], write_set = [(0, 950), (1, 1050)], rv = 0\<rparr>
   = (Returns (),
      \<lparr>mem = \<lparr>accts = [\<lparr>addr = 0, val = 1000\<rparr>, \<lparr>addr = 1, val = 1000\<rparr>], global_clock = 2\<rparr>,
       others = [], trace = [LoadClock 2]\<rparr>,
      \<lparr>read_set = [], write_set = [], rv = 2\<rparr>) \<and>
   tx_validate (Suc 0)
     \<lparr>mem = \<lparr>accts = [\<lparr>addr = 0, val = 1000\<rparr>, \<lparr>addr = 1, val = 1000\<rparr>], global_clock = 2\<rparr>,
      others = [], trace = []\<rparr>
     \<lparr>read_set = [\<lparr>addr = 0, val = 1000\<rparr>], write_set = [(0, 950), (1, 1050)], rv = 0\<rparr>
   = (Returns 2,
      \<lparr>mem = \<lparr>accts = [\<lparr>addr = 0, val = 1000\<rparr>, \<lparr>addr = 1, val = 1000\<rparr>], global_clock = 2\<rparr>,
       others = [], trace = [LoadClock 2, LoadValue 0 1000, LoadClock 2]\<rparr>) \<and>
   (2 :: 32 word) AND 1 = 0 \<and>
   tx_commit (Suc (Suc 0))
     \<lparr>mem = \<lparr>accts = [\<lparr>addr = 0, val = 1000\<rparr>, \<lparr>addr = 1, val = 1000\<rparr>], global_clock = 2\<rparr>,
      others = [], trace = []\<rparr>
     \<lparr>read_set = [\<lparr>addr = 0, val = 1000\<rparr>], write_set = [(0, 950), (1, 1050)], rv = 0\<rparr>
   = (Returns (),
      \<lparr>mem = \<lparr>accts = [\<lparr>addr = 0, val = 950\<rparr>, \<lparr>addr = 1, val = 1050\<rparr>], global_clock = 4\<rparr>,
       others = [],
       trace = [CasClock 0 1 False, LoadClock 2, LoadValue 0 1000, LoadClock 2,
                CasClock 2 3 True, StoreValue 0 950, StoreValue 1 1050, StoreClock 4]\<rparr>,
      \<lparr>read_set = [\<lparr>addr = 0, val = 1000\<rparr>], write_set = [(0, 950), (1, 1050)], rv = 2\<rparr>) \<and>
   list_all even_to_odd
     [CasClock 0 1 False, LoadClock 2, LoadValue 0 1000, LoadClock 2,
      CasClock 2 3 True, StoreValue 0 950, StoreValue 1 1050, StoreClock 4] \<and>
   tx_read (Suc (Suc 0)) 1
     \<lparr>mem = \<lparr>accts = [\<lparr>addr = 0, val = 1000\<rparr>, \<lparr>addr = 1, val = 1000\<rparr>], global_clock = 2\<rparr>,
      others = [], trace = []\<rparr>
     \<lparr>read_set = [\<lparr>addr = 0, val = 1000\<rparr>], write_set = [], rv = 0\<rparr>
   = (Returns 1000,
      \<lparr>mem = \<lparr>accts = [\<lparr>addr = 0, val = 1000\<rparr>, \<lparr>addr = 1, val = 1000\<rparr>], global_clock = 2\<rparr>,
       others = [],
       trace = [LoadValue 1 1000, LoadClock 2, LoadClock 2, LoadValue 0 1000, LoadClock 2,
                LoadValue 1 1000, LoadClock 2]\<rparr>,
      \<lparr>read_set = [\<lparr>addr = 0, val = 1000\<rparr>, \<lparr>addr = 1, val = 1000\<rparr>], write_set = [], rv = 2\<rparr>) \<and>
   between_calls (tx_write 0 950 tx_init) \<and>
   rv (tx_write 0 950 tx_init) AND 1 = 0"
  (is "tx_begin ?n1 ?W ?T = (Returns (), ?Wb, ?Tb) \<and>
       tx_validate ?n1 ?W ?T = (Returns 2, ?Wv) \<and> ?E \<and>
       tx_commit ?n2 ?W ?T = (Returns (), ?Wc, ?Tc) \<and> ?L \<and>
       tx_read ?n2 1 ?W ?Tr = (Returns 1000, ?Wr, ?Tr') \<and> ?B \<and> ?R")
proof -
  have runb: "tx_begin ?n1 ?W ?T = (Returns (), ?Wb, ?Tb)" by (simp add: run_defs)
  have runv: "tx_validate ?n1 ?W ?T = (Returns 2, ?Wv)" by (simp add: run_defs)
  have runc: "tx_commit ?n2 ?W ?T = (Returns (), ?Wc, ?Tc)" by (simp add: run_defs)
  have runr: "tx_read ?n2 1 ?W ?Tr = (Returns 1000, ?Wr, ?Tr')" by (simp add: run_defs)
  note thmb = rv_stays_even [where n = ?n1 and w = ?W and t = ?T and u = "()" and ?w1.0 = ?Wb
      and ?t1.0 = ?Tb]
  note thmv = rv_stays_even [where n = ?n1 and w = ?W and t = ?T and c = 2 and ?w2.0 = ?Wv]
  note thmc = rv_stays_even [where n = ?n2 and w = ?W and t = ?T and ?r4.0 = "Returns ()"
      and ?w4.0 = ?Wc and ?t4.0 = ?Tc]
  note thmr = rv_stays_even [where n = ?n2 and a = 1 and w = ?W and t = ?Tr
      and ?r3.0 = "Returns 1000" and ?w3.0 = ?Wr and ?t3.0 = ?Tr']
  from thmb runb have "rv ?Tb AND 1 = 0" by blast
  from thmv runv have e: ?E by blast
  have even0: "rv ?T AND 1 = 0" "rv ?Tr AND 1 = 0" by simp_all
  from thmc runc even0(1) have "list_all even_to_odd (trace ?W) \<longrightarrow> list_all even_to_odd (trace ?Wc)"
    by blast
  then have l: ?L by simp
  from thmr runr even0(2) have "rv ?Tr' AND 1 = 0" by blast
  have b: ?B by (intro between_calls.written between_calls.start)
  with rv_stays_even [where t = "tx_write 0 950 tx_init"] have r: ?R by blast
  from runb runv e runc l runr b r show ?thesis by blast
qed

end
